theory Spec2Isabelle
  imports Main "HOL-Library.Sublist" "HOL-Library.AList" "HOL-Library.Multiset"
begin

section \<open>Strings\<close>

text \<open>
  The library works on JavaScript strings. They are modelled as \<open>string\<close>, a list of
  characters with codes below 256; the functions below only compare characters with the
  ASCII characters \<open>.\<close>, \<open>:\<close>, \<open>/\<close> and the letters of \<open>js\<close>, \<open>ts\<close>, \<open>http\<close> (and \<open>trim\<close> with
  the white space), and treat every other character alike.

  \<open>js_replace pat rep s\<close> is \<^verbatim>\<open>s.replace(pat, rep)\<close> for a string pattern \<open>pat\<close> and a
  replacement without \<^verbatim>\<open>$\<close>: the first occurrence of \<open>pat\<close> in \<open>s\<close> is replaced, the
  rest of \<open>s\<close> is kept.
\<close>

fun js_replace :: "string \<Rightarrow> string \<Rightarrow> string \<Rightarrow> string" where
  "js_replace pat rep [] = (if pat = [] then rep else [])"
| "js_replace pat rep (c # cs) =
     (if prefix pat (c # cs) then rep @ drop (length pat) (c # cs)
      else c # js_replace pat rep cs)"

text \<open>\<^verbatim>\<open>s.replace(/\//g, '.')\<close> replaces every slash, character by character.\<close>

definition slash_to_dot :: "char \<Rightarrow> char" where
  "slash_to_dot c = (if c = CHR ''/'' then CHR ''.'' else c)"

text \<open>\<^verbatim>\<open>xs.join(sep)\<close>.\<close>

fun join :: "string \<Rightarrow> string list \<Rightarrow> string" where
  "join sep [] = []"
| "join sep [x] = x"
| "join sep (x # y # ys) = x @ sep @ join sep (y # ys)"

text \<open>
  \<^verbatim>\<open>s.split('.')\<close>: the pieces of \<open>s\<close> between the dots; the result is never empty
  (the empty string splits into one empty piece). \<open>split_acc\<close> carries the piece being
  read.
\<close>

fun split_acc :: "char \<Rightarrow> string \<Rightarrow> string \<Rightarrow> string list" where
  "split_acc d acc [] = [acc]"
| "split_acc d acc (c # cs) =
     (if c = d then acc # split_acc d [] cs else split_acc d (acc @ [c]) cs)"

definition split_dot :: "string \<Rightarrow> string list" where
  "split_dot s = split_acc (CHR ''.'') [] s"

text \<open>
  \<^verbatim>\<open>s.trim()\<close> removes white space and line terminators from both ends; of these the
  characters below (space, tab, line feed, vertical tab, form feed, carriage return and
  the no-break space) are the ones with a code below 256.
\<close>

definition is_space :: "char \<Rightarrow> bool" where
  "is_space c =
     (c \<in> set [CHR '' '', CHR 0x09, CHR 0x0A, CHR 0x0B, CHR 0x0C, CHR 0x0D, CHR 0xA0])"

definition trim :: "string \<Rightarrow> string" where
  "trim s = rev (dropWhile is_space (rev (dropWhile is_space s)))"

subsection \<open>Facts about \<open>js_replace\<close>\<close>

lemma js_replace_skip:
  "\<not> prefix pat (c # cs) \<Longrightarrow> js_replace pat rep (c # cs) = c # js_replace pat rep cs"
  by simp

lemma js_replace_hit:
  "prefix pat s \<Longrightarrow> js_replace pat rep s = rep @ drop (length pat) s"
  by (cases s) auto

lemma js_replace_absent:
  "c \<in> set pat \<Longrightarrow> c \<notin> set s \<Longrightarrow> js_replace pat rep s = s"
proof (induction s)
  case Nil
  then show ?case by auto
next
  case (Cons a s)
  have "\<not> prefix pat (a # s)"
  proof
    assume "prefix pat (a # s)"
    then have "set pat \<subseteq> set (a # s)" by (rule set_mono_prefix)
    with Cons.prems show False by auto
  qed
  then show ?case using Cons by simp
qed

lemma takeWhile_upto: "c \<notin> set xs \<Longrightarrow> takeWhile (\<lambda>a. a \<noteq> c) (xs @ c # ys) = xs"
  by (induction xs) auto

lemma prefix_marker_position:
  assumes "prefix (x @ [c]) (m @ c # f)" and "c \<notin> set x" and "c \<notin> set m"
  shows "m = x"
proof -
  from assms(1) obtain r where "m @ c # f = x @ c # r" by (auto simp: prefix_def)
  then have "takeWhile (\<lambda>a. a \<noteq> c) (m @ c # f) = takeWhile (\<lambda>a. a \<noteq> c) (x @ c # r)"
    by simp
  then show ?thesis using assms(2,3) by (simp add: takeWhile_upto)
qed

text \<open>A pattern that ends in a character \<open>c\<close> is found where \<open>c\<close> occurs first.\<close>

lemma js_replace_first_marker:
  assumes "c \<notin> set xs" and "c \<notin> set x"
  shows "js_replace (x @ [c]) rep (xs @ x @ c # ys) = xs @ rep @ ys"
  using assms(1)
proof (induction xs)
  case Nil
  have "prefix (x @ [c]) (x @ c # ys)" by (simp add: prefix_def)
  then have "js_replace (x @ [c]) rep (x @ c # ys) = rep @ drop (length (x @ [c])) (x @ c # ys)"
    by (rule js_replace_hit)
  then show ?case by simp
next
  case (Cons a xs)
  define t where "t = xs @ x @ c # ys"
  have "\<not> prefix (x @ [c]) (a # t)"
  proof
    assume "prefix (x @ [c]) (a # t)"
    then have "prefix (x @ [c]) (((a # xs) @ x) @ c # ys)" by (simp add: t_def)
    then have "(a # xs) @ x = x"
      using assms(2) Cons.prems by (intro prefix_marker_position) auto
    then show False by simp
  qed
  then have "js_replace (x @ [c]) rep (a # t) = a # js_replace (x @ [c]) rep t"
    by (rule js_replace_skip)
  moreover have "js_replace (x @ [c]) rep t = xs @ rep @ ys"
    unfolding t_def using Cons by simp
  moreover have "(a # xs) @ x @ c # ys = a # t"
    by (simp add: t_def)
  ultimately show ?case by (simp del: js_replace.simps)
qed

text \<open>
  A string with a single \<open>c\<close> holds the pattern \<open>x @ [c]\<close> only when \<open>x\<close> stands right
  before that \<open>c\<close>.
\<close>

lemma js_replace_no_marker:
  assumes "c \<notin> set f" and "c \<notin> set x"
  shows "c \<notin> set m \<Longrightarrow> \<not> suffix x m \<Longrightarrow> js_replace (x @ [c]) rep (m @ c # f) = m @ c # f"
proof (induction m)
  case Nil
  then have "x \<noteq> []" by auto
  then have "\<not> prefix (x @ [c]) (c # f)"
    using assms(2) by (cases x) auto
  then have "js_replace (x @ [c]) rep (c # f) = c # js_replace (x @ [c]) rep f"
    by (rule js_replace_skip)
  moreover have "js_replace (x @ [c]) rep f = f"
    by (rule js_replace_absent[of c]) (use assms in auto)
  ultimately show ?case by simp
next
  case (Cons a m)
  define t where "t = m @ c # f"
  have "\<not> prefix (x @ [c]) (a # t)"
  proof
    assume "prefix (x @ [c]) (a # t)"
    then have "prefix (x @ [c]) ((a # m) @ c # f)" by (simp add: t_def)
    then have "a # m = x"
      using assms(2) Cons.prems by (intro prefix_marker_position) auto
    then show False using Cons.prems by auto
  qed
  then have "js_replace (x @ [c]) rep (a # t) = a # js_replace (x @ [c]) rep t"
    by (rule js_replace_skip)
  moreover have "\<not> suffix x m" using Cons.prems(2)
    by (auto simp: suffix_Cons)
  then have "js_replace (x @ [c]) rep t = t"
    unfolding t_def using Cons by simp
  moreover have "(a # m) @ c # f = a # t"
    by (simp add: t_def)
  ultimately show ?case by (simp del: js_replace.simps)
qed

subsection \<open>Facts about \<open>join\<close>\<close>

lemma slash_to_dot_slash: "slash_to_dot CHR ''/'' = CHR ''.''"
  by (simp add: slash_to_dot_def)

lemma map_slash_id: "CHR ''/'' \<notin> set s \<Longrightarrow> map slash_to_dot s = s"
  by (induction s) (auto simp: slash_to_dot_def)

lemma map_slash_join:
  "\<forall>s \<in> set segs. CHR ''/'' \<notin> set s \<Longrightarrow> map slash_to_dot (join ''/'' segs) = join ''.'' segs"
proof (induction segs)
  case Nil
  then show ?case by simp
next
  case (Cons x segs)
  then show ?case
    by (cases segs) (simp_all add: map_slash_id slash_to_dot_slash)
qed

lemma join_snoc: "segs \<noteq> [] \<Longrightarrow> join sep (segs @ [x]) = join sep segs @ sep @ x"
  by (induction sep segs rule: join.induct) auto

lemma set_join: "set (join sep segs) \<subseteq> set sep \<union> \<Union> (set ` set segs)"
  by (induction sep segs rule: join.induct) auto

lemma suffix_past_separator:
  assumes "suffix s (p @ c # f)" and "c \<notin> set s"
  shows "suffix s f"
proof -
  from assms(1) have "suffix s (c # f) \<or> (\<exists>s'. suffix s' p \<and> s = s' @ c # f)"
    by (auto simp: suffix_append)
  then show ?thesis
  proof
    assume "suffix s (c # f)"
    then show ?thesis using assms(2) by (auto simp: suffix_Cons)
  next
    assume "\<exists>s'. suffix s' p \<and> s = s' @ c # f"
    then show ?thesis using assms(2) by auto
  qed
qed

section \<open>Function identifiers\<close>

text \<open>
  \<^verbatim>\<open>identifierToApiPath\<close> and \<^verbatim>\<open>identifierToRunPath\<close>: two chained replacements of
  the first \<^verbatim>\<open>.js:\<close> and then of the first \<^verbatim>\<open>.ts:\<close>; the API path also turns every
  slash into a dot.
\<close>

definition identifierToApiPath :: "string \<Rightarrow> string" where
  "identifierToApiPath identifier =
     map slash_to_dot (js_replace ''.ts:'' ''.'' (js_replace ''.js:'' ''.'' identifier))"

definition identifierToRunPath :: "string \<Rightarrow> string" where
  "identifierToRunPath identifier =
     js_replace ''.ts:'' '':'' (js_replace ''.js:'' '':'' identifier)"

text \<open>
  The identifiers the specification speaks of: directory segments and a file name joined
  by slashes, the extension marker, a colon and the function name. A segment holds
  neither the slash nor the colon, which separate the segments.
\<close>

datatype extension = JS | TS

fun marker :: "extension \<Rightarrow> string" where
  "marker JS = ''.js''"
| "marker TS = ''.ts''"

definition module_path :: "string list \<Rightarrow> string \<Rightarrow> string" where
  "module_path dirs file = join ''/'' (dirs @ [file])"

definition make_identifier :: "extension \<Rightarrow> string list \<Rightarrow> string \<Rightarrow> string \<Rightarrow> string" where
  "make_identifier e dirs file fnName = module_path dirs file @ marker e @ '':'' @ fnName"

definition segment :: "string \<Rightarrow> bool" where
  "segment s = (CHR '':'' \<notin> set s \<and> CHR ''/'' \<notin> set s)"

definition segments :: "string list \<Rightarrow> bool" where
  "segments ss = list_all segment ss"

lemma module_path_no_colon:
  assumes "segments (dirs @ [file])"
  shows "CHR '':'' \<notin> set (module_path dirs file)"
  using assms set_join[of "''/''" "dirs @ [file]"]
  by (auto simp: module_path_def segments_def segment_def list_all_iff)

lemma module_path_suffix:
  assumes "suffix x (module_path dirs file)" and "CHR ''/'' \<notin> set x"
  shows "suffix x file"
proof (cases "dirs = []")
  case True
  then show ?thesis using assms(1) by (simp add: module_path_def)
next
  case False
  then have "module_path dirs file = join ''/'' dirs @ CHR ''/'' # file"
    by (simp add: module_path_def join_snoc)
  then show ?thesis using assms suffix_past_separator by metis
qed

lemma marker_no_colon: "CHR '':'' \<notin> set (marker e)"
  by (cases e) auto

lemma marker_no_slash: "CHR ''/'' \<notin> set (marker e)"
  by (cases e) auto

lemma run_path_general:
  assumes "CHR '':'' \<notin> set m" and "CHR '':'' \<notin> set f"
    and "e = JS \<longrightarrow> \<not> suffix ''.ts'' m"
  shows "identifierToRunPath (m @ marker e @ '':'' @ f) = m @ '':'' @ f"
proof (cases e)
  case JS
  have 1: "js_replace (''.js'' @ [CHR '':'']) '':'' (m @ ''.js'' @ CHR '':'' # f) = m @ '':'' @ f"
    by (rule js_replace_first_marker) (use assms in auto)
  have 2: "js_replace (''.ts'' @ [CHR '':'']) '':'' (m @ CHR '':'' # f) = m @ CHR '':'' # f"
    by (rule js_replace_no_marker) (use assms JS in auto)
  show ?thesis
    using 1 2 by (simp add: identifierToRunPath_def JS del: js_replace.simps)
next
  case TS
  have "\<not> suffix ''.js'' (m @ ''.ts'')"
    by (auto simp: suffix_def)
  then have 1: "js_replace (''.js'' @ [CHR '':'']) '':'' ((m @ ''.ts'') @ CHR '':'' # f) =
      (m @ ''.ts'') @ CHR '':'' # f"
    by (intro js_replace_no_marker) (use assms in auto)
  have 2: "js_replace (''.ts'' @ [CHR '':'']) '':'' (m @ ''.ts'' @ CHR '':'' # f) = m @ '':'' @ f"
    by (rule js_replace_first_marker) (use assms in auto)
  show ?thesis
    using 1 2 by (simp add: identifierToRunPath_def TS del: js_replace.simps)
qed

lemma api_path_general:
  assumes "CHR '':'' \<notin> set m" and "CHR '':'' \<notin> set f"
  shows "identifierToApiPath (m @ marker e @ '':'' @ f) = map slash_to_dot (m @ ''.'' @ f)"
proof (cases e)
  case JS
  have 1: "js_replace (''.js'' @ [CHR '':'']) ''.'' (m @ ''.js'' @ CHR '':'' # f) = m @ ''.'' @ f"
    by (rule js_replace_first_marker) (use assms in auto)
  have 2: "js_replace ''.ts:'' ''.'' (m @ ''.'' @ f) = m @ ''.'' @ f"
    by (rule js_replace_absent[of "CHR '':''"]) (use assms in auto)
  show ?thesis
    using 1 2 by (simp add: identifierToApiPath_def JS del: js_replace.simps)
next
  case TS
  have "\<not> suffix ''.js'' (m @ ''.ts'')"
    by (auto simp: suffix_def)
  then have 1: "js_replace (''.js'' @ [CHR '':'']) ''.'' ((m @ ''.ts'') @ CHR '':'' # f) =
      (m @ ''.ts'') @ CHR '':'' # f"
    by (intro js_replace_no_marker) (use assms in auto)
  have 2: "js_replace (''.ts'' @ [CHR '':'']) ''.'' (m @ ''.ts'' @ CHR '':'' # f) = m @ ''.'' @ f"
    by (rule js_replace_first_marker) (use assms in auto)
  show ?thesis
    using 1 2 by (simp add: identifierToApiPath_def TS del: js_replace.simps)
qed

text \<open>
  Claim C1. For an identifier \<open>dir/sub/file.js:fnName\<close> built from segments (any number
  of directory segments, none holding a slash or a colon), \<open>identifierToApiPath\<close>
  returns the segments and the function name joined by dots, and \<open>identifierToRunPath\<close>
  returns the module path, a colon and the function name, the latter for every file
  segment that does not itself end in \<open>.ts\<close>. For a file segment that ends in \<open>.ts\<close>
  the code departs from the claim; the example after the theorem shows it.
\<close>

theorem identifier_paths_js:
  assumes "segments (dirs @ [file, fnName])"
  shows "identifierToApiPath (make_identifier JS dirs file fnName) = join ''.'' (dirs @ [file, fnName])
    \<and> (\<not> suffix ''.ts'' file \<longrightarrow>
         identifierToRunPath (make_identifier JS dirs file fnName) =
           module_path dirs file @ '':'' @ fnName)"
proof -
  let ?m = "module_path dirs file"
  have seg: "segments (dirs @ [file])" and fn: "segment fnName"
    using assms by (auto simp: segments_def)
  have cm: "CHR '':'' \<notin> set ?m"
    using seg by (rule module_path_no_colon)
  have cf: "CHR '':'' \<notin> set fnName" and sf: "CHR ''/'' \<notin> set fnName"
    using fn by (auto simp: segment_def)
  have "identifierToApiPath (?m @ marker JS @ '':'' @ fnName) = map slash_to_dot (?m @ ''.'' @ fnName)"
    using cm cf by (rule api_path_general)
  also have "\<dots> = map slash_to_dot ?m @ ''.'' @ map slash_to_dot fnName"
    by (simp add: slash_to_dot_def)
  also have "map slash_to_dot ?m = join ''.'' (dirs @ [file])"
    unfolding module_path_def
    by (rule map_slash_join) (use seg in \<open>auto simp: segments_def segment_def list_all_iff\<close>)
  also have "map slash_to_dot fnName = fnName"
    using sf by (rule map_slash_id)
  also have "join ''.'' (dirs @ [file]) @ ''.'' @ fnName = join ''.'' ((dirs @ [file]) @ [fnName])"
    by (rule join_snoc[symmetric]) simp
  finally have api: "identifierToApiPath (make_identifier JS dirs file fnName) =
      join ''.'' (dirs @ [file, fnName])"
    by (simp add: make_identifier_def)
  have run: "identifierToRunPath (make_identifier JS dirs file fnName) = ?m @ '':'' @ fnName"
    if "\<not> suffix ''.ts'' file"
  proof -
    have "\<not> suffix ''.ts'' ?m"
      using that module_path_suffix[of "''.ts''" dirs "file"] by auto
    then have "identifierToRunPath (?m @ marker JS @ '':'' @ fnName) = ?m @ '':'' @ fnName"
      using cm cf by (intro run_path_general) auto
    then show ?thesis by (simp add: make_identifier_def)
  qed
  show ?thesis using api run by blast
qed

theorem identifier_paths_js_witness:
  "segments ([''dir'', ''sub''] @ [''file'', ''fnName''])
   \<and> make_identifier JS [''dir'', ''sub''] ''file'' ''fnName'' = ''dir/sub/file.js:fnName''
   \<and> identifierToApiPath ''dir/sub/file.js:fnName'' = ''dir.sub.file.fnName''
   \<and> identifierToRunPath ''dir/sub/file.js:fnName'' = ''dir/sub/file:fnName''"
  using identifier_paths_js[of "[''dir'', ''sub'']" "''file''" "''fnName''"]
  by (simp add: segments_def segment_def make_identifier_def module_path_def suffix_to_prefix)

text \<open>
  For the file segment \<open>c.ts\<close> the run path loses the \<open>.ts\<close> of the file name along
  with the marker: the first replacement turns \<open>.ts.js:\<close> into \<open>.ts:\<close>, which the second
  one then takes for a marker. This is a slip of the code. Its comment promises the
  conversion of the identifier to the format of \<^verbatim>\<open>convex run\<close>, in which the module
  \<open>a/b/c.ts.js\<close> is \<open>a/b/c.ts\<close>; for the file segments \<open>c.js\<close> and \<open>c.ts\<close> under the
  marker of their own kind one marker is removed and the file name is kept; and
  \<open>identifierToApiPath\<close> keeps \<open>c.ts\<close> on the very same identifier.
\<close>

theorem identifier_run_path_counterexample:
  "segments ([''a'', ''b''] @ [''c.ts'', ''f''])
   \<and> make_identifier JS [''a'', ''b''] ''c.ts'' ''f'' = ''a/b/c.ts.js:f''
   \<and> identifierToRunPath (make_identifier JS [''a'', ''b''] ''c.ts'' ''f'') = ''a/b/c:f''
   \<and> identifierToRunPath (make_identifier JS [''a'', ''b''] ''c.ts'' ''f'')
       \<noteq> module_path [''a'', ''b''] ''c.ts'' @ '':'' @ ''f''
   \<and> identifierToRunPath ''a/b/c.js.js:f'' = ''a/b/c.js:f''
   \<and> identifierToRunPath ''a/b/c.ts.ts:f'' = ''a/b/c.ts:f''
   \<and> identifierToApiPath ''a/b/c.ts.js:f'' = ''a.b.c.ts.f''"
  by (simp add: segments_def segment_def make_identifier_def module_path_def
      identifierToRunPath_def identifierToApiPath_def slash_to_dot_def)

text \<open>
  An identifier is well formed when the colon occurs once, after the extension marker,
  and a \<open>.js\<close> module path does not end in \<open>.ts\<close>.
\<close>

definition well_formed :: "extension \<Rightarrow> string \<Rightarrow> string \<Rightarrow> bool" where
  "well_formed e m f =
     (CHR '':'' \<notin> set m \<and> CHR '':'' \<notin> set f \<and> (e = JS \<longrightarrow> \<not> suffix ''.ts'' m))"

lemma colon_split_unique:
  assumes "m @ CHR '':'' # f = m' @ CHR '':'' # f'"
    and "CHR '':'' \<notin> set m" and "CHR '':'' \<notin> set m'"
  shows "m = m' \<and> f = f'"
proof -
  have "takeWhile (\<lambda>a. a \<noteq> CHR '':'') (m @ CHR '':'' # f) =
        takeWhile (\<lambda>a. a \<noteq> CHR '':'') (m' @ CHR '':'' # f')"
    using assms(1) by simp
  then have "m = m'" using assms(2,3) by (simp add: takeWhile_upto)
  then show ?thesis using assms(1) by simp
qed

text \<open>
  Claim C2, as amended. \<open>identifierToRunPath\<close> forgets the extension marker and nothing
  else: on well-formed identifiers the run path determines the module path and the
  function name, and putting the marker back before the colon gives the identifier.
\<close>

theorem run_path_reversible_up_to_extension:
  assumes "well_formed e m f"
  shows "js_replace '':'' (marker e @ '':'') (identifierToRunPath (m @ marker e @ '':'' @ f))
           = m @ marker e @ '':'' @ f
    \<and> (\<forall>e' m' f'. well_formed e' m' f'
          \<and> identifierToRunPath (m' @ marker e' @ '':'' @ f')
              = identifierToRunPath (m @ marker e @ '':'' @ f)
          \<longrightarrow> m' = m \<and> f' = f)"
proof -
  have run: "identifierToRunPath (m @ marker e @ '':'' @ f) = m @ '':'' @ f"
    using assms by (intro run_path_general) (auto simp: well_formed_def)
  have "js_replace ([] @ [CHR '':'']) (marker e @ '':'') (m @ [] @ CHR '':'' # f)
          = m @ (marker e @ '':'') @ f"
    by (rule js_replace_first_marker) (use assms in \<open>auto simp: well_formed_def\<close>)
  then have restore: "js_replace '':'' (marker e @ '':'') (m @ '':'' @ f) = m @ marker e @ '':'' @ f"
    by (simp del: js_replace.simps)
  have inj: "m' = m \<and> f' = f"
    if "well_formed e' m' f'"
      and "identifierToRunPath (m' @ marker e' @ '':'' @ f')
            = identifierToRunPath (m @ marker e @ '':'' @ f)"
    for e' m' f'
  proof -
    have "identifierToRunPath (m' @ marker e' @ '':'' @ f') = m' @ '':'' @ f'"
      using that(1) by (intro run_path_general) (auto simp: well_formed_def)
    then have "m' @ CHR '':'' # f' = m @ CHR '':'' # f"
      using that(2) run by simp
    then show ?thesis
      using that(1) assms by (intro colon_split_unique) (auto simp: well_formed_def)
  qed
  show ?thesis using run restore inj by (simp del: js_replace.simps) blast
qed

theorem run_path_reversible_witness:
  "well_formed JS ''dir/sub/file'' ''fnName''
   \<and> identifierToRunPath ''dir/sub/file.js:fnName'' = ''dir/sub/file:fnName''
   \<and> js_replace '':'' ''.js:'' (identifierToRunPath ''dir/sub/file.js:fnName'')
       = ''dir/sub/file.js:fnName''"
  using run_path_reversible_up_to_extension[of JS "''dir/sub/file''" "''fnName''"]
  by (simp add: well_formed_def suffix_to_prefix identifierToRunPath_def)

text \<open>
  The claim as stated fails: the two distinct identifiers \<open>a.js:f\<close> and \<open>a.ts:f\<close> have
  the same run path.
\<close>

theorem run_path_not_injective_counterexample:
  "''a.js:f'' \<noteq> ''a.ts:f''
   \<and> identifierToRunPath ''a.js:f'' = ''a:f''
   \<and> identifierToRunPath ''a.ts:f'' = ''a:f''"
  by (simp add: identifierToRunPath_def)

section \<open>Function descriptors and callable leaves\<close>

text \<open>
  \<^verbatim>\<open>FunctionSpec\<close> as the interface declares it. The descriptors come out of
  \<^verbatim>\<open>JSON.parse\<close>, and \<^verbatim>\<open>update\<close> itself expects some of them to lack the visibility
  field: \<open>visibility = None\<close> is a missing field (\<^verbatim>\<open>undefined\<close> or \<^verbatim>\<open>null\<close>), \<open>kind = None\<close>
  a visibility object without a \<open>kind\<close>; a kind that is present is a string. Every
  other field has the type the interface gives it. The fields \<^verbatim>\<open>identifier\<close> and
  \<^verbatim>\<open>functions\<close> are written with a prime, as both words are keywords of Isabelle. The
  argument and return schemas are carried as their JSON text.
\<close>

datatype functionType = Query | Mutation | Action

record Visibility =
  kind :: "string option"

record FunctionSpec =
  identifier' :: string
  functionType :: functionType
  args :: string
  returns :: string
  visibility :: "Visibility option"

record ConvexFunctionSpec =
  url :: string
  functions' :: "FunctionSpec list"

text \<open>
  A thrown JavaScript error: its message and, for a failed subprocess, the captured
  error stream.
\<close>

record js_error =
  message :: string
  stderr :: "string option"

definition type_error :: js_error where
  "type_error = \<lparr>message = ''TypeError'', stderr = None\<rparr>"

text \<open>
  \<^verbatim>\<open>createFunctionProxy\<close> returns a function object that carries the descriptor and
  its run path and has closed over the deployment flag.
\<close>

record FunctionProxy =
  spec :: FunctionSpec
  runPath :: string
  flag :: string

definition createFunctionProxy :: "FunctionSpec \<Rightarrow> string \<Rightarrow> FunctionProxy" where
  "createFunctionProxy s deploymentFlag =
     \<lparr>spec = s, runPath = identifierToRunPath (identifier' s), flag = deploymentFlag\<rparr>"

section \<open>The namespace tree\<close>

text \<open>
  The tree is made of plain objects and function objects; a function object can get
  properties of its own when a later path runs through it. Every object carries its
  identity, which is the place of its creation: the root, the object created for
  part \<open>j\<close> of descriptor \<open>i\<close>, or the function object of descriptor \<open>i\<close>. Properties
  are kept in insertion order (JavaScript enumerates keys that are array indices first;
  nothing below depends on the order of the keys).

  \<open>props\<close> holds the properties that the loop of \<^verbatim>\<open>createProxyTree\<close> has set on an
  object.
\<close>

datatype oid = RootObject | NamespaceObject nat nat | FunctionObject nat

datatype node =
    Obj oid "(string \<times> node) list"
  | Fn oid FunctionProxy "(string \<times> node) list"

fun props :: "node \<Rightarrow> (string \<times> node) list" where
  "props (Obj i ps) = ps"
| "props (Fn i p ps) = ps"

fun oid_of :: "node \<Rightarrow> oid" where
  "oid_of (Obj i ps) = i"
| "oid_of (Fn i p ps) = i"

definition get_own :: "node \<Rightarrow> string \<Rightarrow> node option" where
  "get_own n k = map_of (props n) k"

fun set_prop :: "string \<Rightarrow> node \<Rightarrow> node \<Rightarrow> node" where
  "set_prop k v (Obj i ps) = Obj i (AList.update k v ps)"
| "set_prop k v (Fn i p ps) = Fn i p (AList.update k v ps)"

subsection \<open>The properties an object has without the loop\<close>

text \<open>
  \<^verbatim>\<open>current[part]\<close> and \<^verbatim>\<open>target[prop]\<close> read through the prototype chain, so an object
  answers to more names than the loop has set on it. A plain object \<^verbatim>\<open>{}\<close> inherits the
  properties of \<^verbatim>\<open>Object.prototype\<close>. The function object of \<^verbatim>\<open>createFunctionProxy\<close> has
  \<^verbatim>\<open>length\<close>, \<^verbatim>\<open>name\<close> and \<^verbatim>\<open>prototype\<close> of its own, as every function written with
  \<^verbatim>\<open>function\<close> has, and \<^verbatim>\<open>toString\<close>, \<^verbatim>\<open>spec\<close> and \<^verbatim>\<open>runPath\<close>, which \<^verbatim>\<open>createFunctionProxy\<close>
  sets; it inherits the properties of \<^verbatim>\<open>Function.prototype\<close> and, behind them, those
  of \<^verbatim>\<open>Object.prototype\<close>. The lists give the string keys of these properties as the
  language defines them; the model takes the built-in prototypes to be in that state
  when a run begins.
\<close>

definition object_prototype_names :: "string list" where
  "object_prototype_names =
     [''constructor'', ''__defineGetter__'', ''__defineSetter__'', ''hasOwnProperty'',
      ''__lookupGetter__'', ''__lookupSetter__'', ''isPrototypeOf'', ''propertyIsEnumerable'',
      ''toString'', ''valueOf'', ''__proto__'', ''toLocaleString'']"

definition function_own_names :: "string list" where
  "function_own_names = [''length'', ''name'', ''prototype'', ''toString'', ''spec'', ''runPath'']"

definition function_prototype_names :: "string list" where
  "function_prototype_names =
     [''apply'', ''bind'', ''call'', ''arguments'', ''caller'', ''constructor'']"

fun builtin_names :: "node \<Rightarrow> string list" where
  "builtin_names (Obj i ps) = object_prototype_names"
| "builtin_names (Fn i p ps) =
     function_own_names @ function_prototype_names @ object_prototype_names"

text \<open>
  What a piece of the code comes to. It throws (\<open>Threw\<close>), or it completes (\<open>Done\<close>), or
  it leaves the objects of the model (\<open>Beyond\<close>): it has read one of the properties
  listed above and would go on with a value that the loop did not make (a built-in
  function, a prototype object, a string or a number), or it is about to change such a
  property. From there on the code works on objects that the whole program shares, and
  it may return or throw; the model does not follow it. \<open>Beyond\<close> therefore stands for
  "not described here", and a run that ends in it may leave the built-in prototypes
  changed for every run that comes after.
\<close>

datatype 'a outcome = Threw js_error | Beyond | Done 'a

text \<open>
  Reading \<^verbatim>\<open>obj[key]\<close>: a property that the loop has set shadows every other one of the
  same name.
\<close>

datatype property = OwnProperty node | BuiltinProperty | NoProperty

definition read_prop :: "node \<Rightarrow> string \<Rightarrow> property" where
  "read_prop n k =
     (case get_own n k of
        Some c \<Rightarrow> OwnProperty c
      | None \<Rightarrow> if k \<in> set (builtin_names n) then BuiltinProperty else NoProperty)"

text \<open>
  The assignment \<^verbatim>\<open>obj[key] = value\<close>. The module is an ECMAScript module, hence strict
  code, where an assignment to a property that is not writable throws a \<^verbatim>\<open>TypeError\<close>:
  \<^verbatim>\<open>name\<close> and \<^verbatim>\<open>length\<close> of a function are such properties. \<^verbatim>\<open>__proto__\<close> is a setter
  that replaces the prototype of the object, and an assignment to \<^verbatim>\<open>prototype\<close>,
  \<^verbatim>\<open>toString\<close>, \<^verbatim>\<open>spec\<close> or \<^verbatim>\<open>runPath\<close> of a function object replaces what the function
  was given at its creation; \<^verbatim>\<open>arguments\<close> and \<^verbatim>\<open>caller\<close> are accessors of
  \<^verbatim>\<open>Function.prototype\<close>. Every other key, also one of an inherited method such as
  \<^verbatim>\<open>valueOf\<close>, becomes (or stays) a property of the object itself.
\<close>

definition assign :: "string \<Rightarrow> node \<Rightarrow> node \<Rightarrow> node outcome" where
  "assign k v n =
     (if k = ''__proto__'' then Beyond
      else case n of
             Obj i ps \<Rightarrow> Done (set_prop k v n)
           | Fn i p ps \<Rightarrow>
               if k = ''name'' \<or> k = ''length'' then Threw type_error
               else if k \<in> set function_own_names \<or> k = ''arguments'' \<or> k = ''caller''
                 then Beyond
               else Done (set_prop k v n))"

subsection \<open>The loop over the descriptors\<close>

text \<open>
  The body of the loop, for the descriptor with index \<open>i\<close>: walk down the parts but the
  last and set the last part to the leaf. \<open>j\<close> is the index of the part. Where
  \<^verbatim>\<open>current[part]\<close> is a property the loop has set, its value is an object or a function,
  hence truthy, and the walk goes on in it. Where the object has no such property at
  all, \<^verbatim>\<open>current[part]\<close> is \<^verbatim>\<open>undefined\<close>, a new object is stored there (the key is none
  of those \<open>assign\<close> treats specially) and the walk goes on in the new object. Where the
  name is one of the properties the object has without the loop, the walk leaves the
  model. The walk updates the objects in place; here the updated child is put back
  under its key, which keeps its position.
  An empty list of parts cannot come out of \<open>split_dot\<close>; JavaScript would then use the
  key \<^verbatim>\<open>undefined\<close>.
\<close>

definition put_back :: "string \<Rightarrow> node \<Rightarrow> node outcome \<Rightarrow> node outcome" where
  "put_back part current r =
     (case r of
        Done child \<Rightarrow> Done (set_prop part child current)
      | Threw e \<Rightarrow> Threw e
      | Beyond \<Rightarrow> Beyond)"

fun insert_leaf :: "nat \<Rightarrow> nat \<Rightarrow> string list \<Rightarrow> node \<Rightarrow> node \<Rightarrow> node outcome" where
  "insert_leaf i j [] leaf current = assign ''undefined'' leaf current"
| "insert_leaf i j [functionName] leaf current = assign functionName leaf current"
| "insert_leaf i j (part # rest) leaf current =
     (case read_prop current part of
        OwnProperty child \<Rightarrow> put_back part current (insert_leaf i (Suc j) rest leaf child)
      | NoProperty \<Rightarrow>
          put_back part current (insert_leaf i (Suc j) rest leaf (Obj (NamespaceObject i j) []))
      | BuiltinProperty \<Rightarrow> Beyond)"

definition api_parts :: "FunctionSpec \<Rightarrow> string list" where
  "api_parts f = split_dot (identifierToApiPath (identifier' f))"

definition add_function :: "string \<Rightarrow> nat \<times> FunctionSpec \<Rightarrow> node \<Rightarrow> node outcome" where
  "add_function deploymentFlag entry tree =
     insert_leaf (fst entry) 0 (api_parts (snd entry))
       (Fn (FunctionObject (fst entry)) (createFunctionProxy (snd entry) deploymentFlag) []) tree"

text \<open>
  The loop itself, from the descriptor with index \<open>i\<close> on. After the leaf of a
  descriptor is set, the descriptor is recorded in the module-level map
  \<^verbatim>\<open>functionsByPath\<close>, which is never cleared; an exception ends the loop with the map
  as it is then.
\<close>

fun build_loop ::
  "string \<Rightarrow> nat \<Rightarrow> FunctionSpec list \<Rightarrow> node \<Rightarrow> (string \<times> FunctionSpec) list
     \<Rightarrow> node outcome \<times> (string \<times> FunctionSpec) list" where
  "build_loop deploymentFlag i [] tree functionsByPath = (Done tree, functionsByPath)"
| "build_loop deploymentFlag i (func # rest) tree functionsByPath =
     (case add_function deploymentFlag (i, func) tree of
        Done tree' \<Rightarrow>
          build_loop deploymentFlag (Suc i) rest tree'
            (AList.update (identifierToApiPath (identifier' func)) func functionsByPath)
      | Threw e \<Rightarrow> (Threw e, functionsByPath)
      | Beyond \<Rightarrow> (Beyond, functionsByPath))"

subsection \<open>Proxies\<close>

text \<open>
  A value a navigation yields is \<^verbatim>\<open>undefined\<close>, a proxy (with its own identity and
  its target) or a plain reference to an object of the tree. \<^verbatim>\<open>proxyCache\<close> maps the
  identity of a target to the proxy made for it; \<open>allocated\<close> counts the proxies made so
  far, and the next proxy gets that number as its identity.
  The message the trap prints for a missing property is not modelled, and neither are
  the properties whose key is a symbol.
\<close>

datatype jsvalue = Undefined | Proxy nat node | Plain node

record proxy_state =
  proxyCache :: "(oid \<times> nat) list"
  allocated :: nat

definition createProxy :: "node \<Rightarrow> proxy_state \<Rightarrow> jsvalue \<times> proxy_state" where
  "createProxy obj st =
     (case map_of (proxyCache st) (oid_of obj) of
        Some cached \<Rightarrow> (Proxy cached obj, st)
      | None \<Rightarrow>
          (Proxy (allocated st) obj,
           st\<lparr>proxyCache := (oid_of obj, allocated st) # proxyCache st,
              allocated := Suc (allocated st)\<rparr>))"

text \<open>
  The \<^verbatim>\<open>get\<close> trap of \<^verbatim>\<open>createProxyImpl\<close>, for a string property. \<^verbatim>\<open>inspect\<close> and
  \<^verbatim>\<open>constructor\<close> are answered with \<^verbatim>\<open>undefined\<close> before the target is read. Then
  \<^verbatim>\<open>target[prop]\<close> is read: a property the loop has set is returned as it is when it is a
  function, and wrapped by \<^verbatim>\<open>createProxy\<close> when it is an object; a name the target does
  not answer to gives \<^verbatim>\<open>undefined\<close>; a property the target has without the loop (such as
  \<^verbatim>\<open>toString\<close>) is returned by the code, and the read leaves the model.
\<close>

definition proxy_get :: "node \<Rightarrow> string \<Rightarrow> proxy_state \<Rightarrow> jsvalue outcome \<times> proxy_state" where
  "proxy_get target prop st =
     (if prop = ''inspect'' \<or> prop = ''constructor'' then (Done Undefined, st)
      else case read_prop target prop of
             NoProperty \<Rightarrow> (Done Undefined, st)
           | BuiltinProperty \<Rightarrow> (Beyond, st)
           | OwnProperty (Fn i p ps) \<Rightarrow> (Done (Plain (Fn i p ps)), st)
           | OwnProperty (Obj i ps) \<Rightarrow>
               (case createProxy (Obj i ps) st of (v, st') \<Rightarrow> (Done v, st')))"

text \<open>
  Reading a property of a value: through the trap for a proxy, directly for a plain
  object (a function object is returned by the trap as it is, so what lies beneath it is
  read without a proxy); reading a property of \<^verbatim>\<open>undefined\<close> throws.
\<close>

fun get_property :: "jsvalue \<Rightarrow> string \<Rightarrow> proxy_state \<Rightarrow> jsvalue outcome \<times> proxy_state" where
  "get_property Undefined prop st = (Threw type_error, st)"
| "get_property (Proxy p target) prop st = proxy_get target prop st"
| "get_property (Plain n) prop st =
     (case read_prop n prop of
        OwnProperty c \<Rightarrow> (Done (Plain c), st)
      | BuiltinProperty \<Rightarrow> (Beyond, st)
      | NoProperty \<Rightarrow> (Done Undefined, st))"

text \<open>A chain of property reads, as in \<^verbatim>\<open>api.users.list\<close>.\<close>

fun navigate :: "jsvalue \<Rightarrow> string list \<Rightarrow> proxy_state \<Rightarrow> jsvalue outcome \<times> proxy_state" where
  "navigate v [] st = (Done v, st)"
| "navigate v (prop # rest) st =
     (case get_property v prop st of
        (Done v', st') \<Rightarrow> navigate v' rest st'
      | (Threw e, st') \<Rightarrow> (Threw e, st')
      | (Beyond, st') \<Rightarrow> (Beyond, st'))"

subsection \<open>\<^verbatim>\<open>createProxyTree\<close>\<close>

text \<open>
  The filter reads \<^verbatim>\<open>f.visibility.kind\<close> of every descriptor and throws on the first one
  without a visibility, before anything is built. Then the loop runs over the
  descriptors of the requested kind, starting from an empty object, and may throw as
  well. The result is the root proxy together with the cache the closure holds; the
  second component is the module-level map as the call leaves it.
\<close>

definition has_kind :: "string \<Rightarrow> FunctionSpec \<Rightarrow> bool" where
  "has_kind v f = (case visibility f of None \<Rightarrow> False | Some vis \<Rightarrow> kind vis = Some v)"

definition filteredFunctions :: "FunctionSpec list \<Rightarrow> string \<Rightarrow> FunctionSpec list" where
  "filteredFunctions fs v = filter (has_kind v) fs"

record tree_instance =
  root :: jsvalue
  cache :: proxy_state

definition createProxyTree ::
  "FunctionSpec list \<Rightarrow> string \<Rightarrow> string \<Rightarrow> (string \<times> FunctionSpec) list
     \<Rightarrow> tree_instance outcome \<times> (string \<times> FunctionSpec) list" where
  "createProxyTree fs v deploymentFlag functionsByPath =
     (if list_ex (\<lambda>f. visibility f = None) fs then (Threw type_error, functionsByPath)
      else
        case build_loop deploymentFlag 0 (filteredFunctions fs v) (Obj RootObject [])
               functionsByPath of
          (Done tree, recorded) \<Rightarrow>
            (case createProxy tree \<lparr>proxyCache = [], allocated = 0\<rparr> of
               (proxy, st) \<Rightarrow> (Done \<lparr>root = proxy, cache = st\<rparr>, recorded))
        | (Threw e, recorded) \<Rightarrow> (Threw e, recorded)
        | (Beyond, recorded) \<Rightarrow> (Beyond, recorded))"

section \<open>What a tree holds\<close>

text \<open>
  \<open>descend\<close> follows a path through the properties that the loop has set; \<open>peek\<close>
  tells what stands at the end of the path: nothing, a namespace object, or a function
  object with the descriptor it is bound to.
\<close>

fun descend :: "node \<Rightarrow> string list \<Rightarrow> node option" where
  "descend n [] = Some n"
| "descend n (k # ks) = (case get_own n k of None \<Rightarrow> None | Some c \<Rightarrow> descend c ks)"

datatype binding = Absent | Namespace | Callable FunctionProxy

fun binding_of :: "node \<Rightarrow> binding" where
  "binding_of (Obj i ps) = Namespace"
| "binding_of (Fn i p ps) = Callable p"

definition peek :: "node \<Rightarrow> string list \<Rightarrow> binding" where
  "peek n p = (case descend n p of None \<Rightarrow> Absent | Some c \<Rightarrow> binding_of c)"

definition settle :: "binding \<Rightarrow> binding" where
  "settle b = (case b of Absent \<Rightarrow> Namespace | _ \<Rightarrow> b)"

subsection \<open>The tree of a completed walk\<close>

text \<open>
  Tools of the proofs: the walk and the loop with their two exits taken out. They are
  no model of the code; \<open>insert_leaf_Done\<close> and \<open>build_loop_Done\<close> show that a walk
  or a loop that completes has built just this tree, which is all they are used for.
\<close>

fun plain_insert :: "nat \<Rightarrow> nat \<Rightarrow> string list \<Rightarrow> node \<Rightarrow> node \<Rightarrow> node" where
  "plain_insert i j [] leaf current = set_prop ''undefined'' leaf current"
| "plain_insert i j [functionName] leaf current = set_prop functionName leaf current"
| "plain_insert i j (part # rest) leaf current =
     (let child = (case get_own current part of
                     None \<Rightarrow> Obj (NamespaceObject i j) []
                   | Some c \<Rightarrow> c)
      in set_prop part (plain_insert i (Suc j) rest leaf child) current)"

definition plain_add :: "string \<Rightarrow> nat \<times> FunctionSpec \<Rightarrow> node \<Rightarrow> node" where
  "plain_add deploymentFlag entry tree =
     plain_insert (fst entry) 0 (api_parts (snd entry))
       (Fn (FunctionObject (fst entry)) (createFunctionProxy (snd entry) deploymentFlag) []) tree"

definition plain_build :: "string \<Rightarrow> FunctionSpec list \<Rightarrow> node" where
  "plain_build deploymentFlag fs =
     fold (plain_add deploymentFlag) (enumerate 0 fs) (Obj RootObject [])"

definition record_paths ::
  "FunctionSpec list \<Rightarrow> (string \<times> FunctionSpec) list \<Rightarrow> (string \<times> FunctionSpec) list" where
  "record_paths fs functionsByPath =
     fold (\<lambda>f m. AList.update (identifierToApiPath (identifier' f)) f m) fs functionsByPath"

lemma assign_Done: "assign k v n = Done t \<Longrightarrow> t = set_prop k v n"
  by (cases n) (auto simp: assign_def split: if_splits)

lemma put_back_Done:
  "put_back part current r = Done t \<longleftrightarrow> (\<exists>child. r = Done child \<and> t = set_prop part child current)"
  by (cases r) (auto simp: put_back_def)

lemma read_prop_Own: "read_prop n k = OwnProperty c \<longleftrightarrow> get_own n k = Some c"
  by (auto simp: read_prop_def split: option.splits)

lemma read_prop_No: "read_prop n k = NoProperty \<Longrightarrow> get_own n k = None"
  by (auto simp: read_prop_def split: option.splits)

lemma insert_leaf_Done:
  "insert_leaf i j ks leaf cur = Done t \<Longrightarrow> t = plain_insert i j ks leaf cur"
proof (induction i j ks leaf cur arbitrary: t rule: insert_leaf.induct)
  case (1 i j leaf current)
  then show ?case by (simp add: assign_Done)
next
  case (2 i j functionName leaf current)
  then show ?case by (simp add: assign_Done)
next
  case (3 i j part v va leaf current)
  show ?case
  proof (cases "read_prop current part")
    case (OwnProperty child)
    then have g: "get_own current part = Some child" by (simp add: read_prop_Own)
    from "3.prems" OwnProperty obtain c' where
      c': "insert_leaf i (Suc j) (v # va) leaf child = Done c'" "t = set_prop part c' current"
      by (auto simp: put_back_Done)
    from "3.IH"(1)[OF OwnProperty c'(1)] c'(2) g show ?thesis by simp
  next
    case BuiltinProperty
    then show ?thesis using "3.prems" by simp
  next
    case NoProperty
    then have g: "get_own current part = None" by (rule read_prop_No)
    from "3.prems" NoProperty obtain c' where
      c': "insert_leaf i (Suc j) (v # va) leaf (Obj (NamespaceObject i j) []) = Done c'"
        "t = set_prop part c' current"
      by (auto simp: put_back_Done)
    from "3.IH"(2)[OF NoProperty c'(1)] c'(2) g show ?thesis by simp
  qed
qed

lemma add_function_Done: "add_function d e t = Done t' \<Longrightarrow> t' = plain_add d e t"
  unfolding add_function_def plain_add_def by (rule insert_leaf_Done)

lemma build_loop_Done:
  "build_loop d i fs t m = (Done t', m') \<Longrightarrow>
   t' = fold (plain_add d) (enumerate i fs) t \<and> m' = record_paths fs m"
proof (induction fs arbitrary: i t m)
  case Nil
  then show ?case by (simp add: record_paths_def)
next
  case (Cons f fs)
  show ?case
  proof (cases "add_function d (i, f) t")
    case (Done t1)
    then have "t1 = plain_add d (i, f) t" by (rule add_function_Done)
    moreover have "build_loop d (Suc i) fs t1 (AList.update (identifierToApiPath (identifier' f)) f m)
        = (Done t', m')"
      using Cons.prems Done by simp
    ultimately show ?thesis using Cons.IH by (simp add: record_paths_def)
  qed (use Cons.prems in auto)
qed

lemma build_loop_append:
  "build_loop d i (xs @ ys) t m =
     (case build_loop d i xs t m of
        (Done t', m') \<Rightarrow> build_loop d (i + length xs) ys t' m'
      | (Threw e, m') \<Rightarrow> (Threw e, m')
      | (Beyond, m') \<Rightarrow> (Beyond, m'))"
  by (induction xs arbitrary: i t m) (simp_all split: outcome.splits prod.splits)

lemma get_own_set_prop: "get_own (set_prop k v n) k' = (if k' = k then Some v else get_own n k')"
  by (cases n) (auto simp: get_own_def update_conv')

lemma binding_of_set_prop: "binding_of (set_prop k v n) = binding_of n"
  by (cases n) auto

lemma binding_of_not_Absent: "binding_of n \<noteq> Absent"
  by (cases n) auto

lemma peek_Nil: "peek n [] = binding_of n"
  by (simp add: peek_def)

lemma peek_Cons: "peek n (k # ks) = (case get_own n k of None \<Rightarrow> Absent | Some c \<Rightarrow> peek c ks)"
  by (simp add: peek_def split: option.splits)

lemma peek_empty_Obj: "peek (Obj i []) p = (if p = [] then Namespace else Absent)"
  by (cases p) (simp_all add: peek_Nil peek_Cons get_own_def)

lemma peek_empty_Fn: "peek (Fn i f []) p = (if p = [] then Callable f else Absent)"
  by (cases p) (simp_all add: peek_Nil peek_Cons get_own_def)

lemma settle_binding_of: "settle (binding_of n) = binding_of n"
  by (cases n) (auto simp: settle_def)

lemma strict_prefix_Nil_iff: "strict_prefix [] xs \<longleftrightarrow> xs \<noteq> []"
  by (cases xs) auto

text \<open>
  What the tree holds at a path \<open>p\<close> after a leaf has been set at the path \<open>ks\<close>: the leaf
  at \<open>ks\<close> itself, what the leaf holds below \<open>ks\<close>, an object (the old one, or a new
  namespace) above \<open>ks\<close>, and what it held before everywhere else.
\<close>

lemma peek_plain_insert:
  "ks \<noteq> [] \<Longrightarrow>
   peek (plain_insert i j ks leaf cur) p =
     (if p = ks then binding_of leaf
      else if strict_prefix ks p then peek leaf (drop (length ks) p)
      else if strict_prefix p ks then settle (peek cur p)
      else peek cur p)"
proof (induction i j ks leaf cur arbitrary: p rule: plain_insert.induct)
  case (1 i j leaf current)
  then show ?case by simp
next
  case (2 i j functionName leaf current)
  show ?case
    by (cases p)
      (auto simp: peek_Nil peek_Cons get_own_set_prop binding_of_set_prop settle_binding_of
         strict_prefix_Nil_iff)
next
  case (3 i j part v va leaf current)
  show ?case
  proof (cases p)
    case Nil
    then show ?thesis
      by (simp add: peek_Nil binding_of_set_prop settle_binding_of Let_def)
  next
    case (Cons q qs)
    show ?thesis
    proof (cases "q = part")
      case False
      then show ?thesis using Cons
        by (simp add: peek_Cons get_own_set_prop Let_def)
    next
      case True
      define child where "child = (case get_own current part of
                     None \<Rightarrow> Obj (NamespaceObject i j) [] | Some c \<Rightarrow> c)"
      have IH: "peek (plain_insert i (Suc j) (v # va) leaf child) qs =
        (if qs = v # va then binding_of leaf
         else if strict_prefix (v # va) qs then peek leaf (drop (length (v # va)) qs)
         else if strict_prefix qs (v # va) then settle (peek child qs)
         else peek child qs)"
        using "3.IH"[of child qs] by (simp add: child_def)
      have step: "peek (plain_insert i j (part # v # va) leaf current) p =
          peek (plain_insert i (Suc j) (v # va) leaf child) qs"
        using Cons True by (simp add: peek_Cons get_own_set_prop Let_def child_def)
      have c1: "settle (peek child qs) = settle (peek current p)" if "strict_prefix qs (v # va)"
        using Cons True
        by (auto simp: child_def peek_Cons peek_empty_Obj settle_def split: option.splits)
      have c2: "peek child qs = peek current p" if "\<not> strict_prefix qs (v # va)"
      proof -
        from that have "qs \<noteq> []" by auto
        then show ?thesis
          using Cons True
          by (auto simp: child_def peek_Cons peek_empty_Obj split: option.splits)
      qed
      show ?thesis
        unfolding step IH using Cons True c1 c2
        by (auto simp del: plain_insert.simps)
    qed
  qed
qed

lemma split_acc_nonempty: "split_acc d acc s \<noteq> []"
  by (induction s arbitrary: acc) auto

lemma api_parts_nonempty: "api_parts f \<noteq> []"
  by (simp add: api_parts_def split_dot_def split_acc_nonempty)

lemma settle_Callable: "settle b = Callable fp \<longleftrightarrow> b = Callable fp"
  by (cases b) (auto simp: settle_def)

lemma settle_not_Absent: "settle b \<noteq> Absent"
  by (cases b) (auto simp: settle_def)

lemma peek_plain_add:
  "peek (plain_add dflag (i, f) t) p =
     (if p = api_parts f then Callable (createFunctionProxy f dflag)
      else if strict_prefix (api_parts f) p then Absent
      else if strict_prefix p (api_parts f) then settle (peek t p)
      else peek t p)"
proof -
  have "strict_prefix (api_parts f) p \<Longrightarrow> drop (length (api_parts f)) p \<noteq> []"
    by (auto simp: strict_prefix_def prefix_def)
  then show ?thesis
    unfolding plain_add_def
    by (simp add: peek_plain_insert[OF api_parts_nonempty] peek_empty_Fn del: plain_insert.simps)
qed

lemma plain_build_snoc:
  "plain_build dflag (fs @ [g]) = plain_add dflag (length fs, g) (plain_build dflag fs)"
  by (simp add: plain_build_def enumerate_append_eq)

lemma peek_plain_build_Nil: "peek (plain_build dflag []) p = (if p = [] then Namespace else Absent)"
  by (simp add: plain_build_def peek_empty_Obj)

lemma peek_plain_build_sound:
  "peek (plain_build dflag fs) p = Callable fp \<Longrightarrow>
   \<exists>f \<in> set fs. fp = createFunctionProxy f dflag \<and> api_parts f = p"
proof (induction fs arbitrary: p rule: rev_induct)
  case Nil
  then show ?case by (simp add: peek_plain_build_Nil split: if_splits)
next
  case (snoc g fs)
  then show ?case
    by (auto simp: plain_build_snoc peek_plain_add settle_Callable split: if_splits)
qed

lemma peek_plain_build_last:
  "\<forall>g \<in> set ys. \<not> prefix (api_parts g) (api_parts f) \<Longrightarrow>
   peek (plain_build dflag (xs @ f # ys)) (api_parts f) = Callable (createFunctionProxy f dflag)"
proof (induction ys rule: rev_induct)
  case Nil
  show ?case
    using plain_build_snoc[of dflag xs f] by (simp add: peek_plain_add)
next
  case (snoc g ys)
  have "plain_build dflag (xs @ f # ys @ [g]) =
        plain_add dflag (length (xs @ f # ys), g) (plain_build dflag (xs @ f # ys))"
    using plain_build_snoc[of dflag "xs @ f # ys" g] by simp
  moreover have "\<not> prefix (api_parts g) (api_parts f)" using snoc.prems by simp
  moreover have "peek (plain_build dflag (xs @ f # ys)) (api_parts f) = Callable (createFunctionProxy f dflag)"
    using snoc by simp
  ultimately show ?case
    by (auto simp: peek_plain_add settle_Callable strict_prefix_def)
qed

text \<open>
  A list of descriptors is free of conflicts when no derived path equals, or is a prefix
  of, the derived path of a different descriptor of the list.
\<close>

definition conflict_free :: "FunctionSpec list \<Rightarrow> bool" where
  "conflict_free fs =
     list_all (\<lambda>f. list_all (\<lambda>g. prefix (api_parts f) (api_parts g) \<longrightarrow> f = g) fs) fs"

lemma conflict_freeD:
  "conflict_free fs \<Longrightarrow> f \<in> set fs \<Longrightarrow> g \<in> set fs \<Longrightarrow> prefix (api_parts f) (api_parts g) \<Longrightarrow> f = g"
  by (auto simp: conflict_free_def list_all_iff)

lemma conflict_free_set: "set fs = set fs' \<Longrightarrow> conflict_free fs = conflict_free fs'"
  by (auto simp: conflict_free_def list_all_iff)

lemma conflict_free_butlast: "conflict_free (fs @ [g]) \<Longrightarrow> conflict_free fs"
  by (auto simp: conflict_free_def list_all_iff)

lemma peek_plain_build_Callable_iff:
  assumes "conflict_free fs"
  shows "peek (plain_build dflag fs) p = Callable fp \<longleftrightarrow>
    (\<exists>f \<in> set fs. fp = createFunctionProxy f dflag \<and> api_parts f = p)"
proof
  assume "peek (plain_build dflag fs) p = Callable fp"
  then show "\<exists>f \<in> set fs. fp = createFunctionProxy f dflag \<and> api_parts f = p"
    by (rule peek_plain_build_sound)
next
  assume "\<exists>f \<in> set fs. fp = createFunctionProxy f dflag \<and> api_parts f = p"
  then obtain f where f: "f \<in> set fs" "fp = createFunctionProxy f dflag" "api_parts f = p"
    by blast
  from f(1) obtain xs ys where split: "fs = xs @ f # ys" "f \<notin> set ys"
    by (auto dest: split_list_last)
  have "\<forall>g \<in> set ys. \<not> prefix (api_parts g) (api_parts f)"
  proof
    fix g assume g: "g \<in> set ys"
    show "\<not> prefix (api_parts g) (api_parts f)"
    proof
      assume "prefix (api_parts g) (api_parts f)"
      then have "g = f"
        using conflict_freeD[OF assms, of g f] g split(1) by auto
      then show False using g split(2) by simp
    qed
  qed
  then show "peek (plain_build dflag fs) p = Callable fp"
    using peek_plain_build_last[of ys f dflag xs] f split by simp
qed

lemma peek_plain_build_Absent_iff:
  assumes "conflict_free fs"
  shows "peek (plain_build dflag fs) p = Absent \<longleftrightarrow>
    (p \<noteq> [] \<and> (\<forall>f \<in> set fs. \<not> prefix p (api_parts f)))"
  using assms
proof (induction fs arbitrary: p rule: rev_induct)
  case Nil
  then show ?case by (simp add: peek_plain_build_Nil)
next
  case (snoc g fs)
  have cf: "conflict_free fs" using snoc.prems by (rule conflict_free_butlast)
  note IH = snoc.IH[OF cf]
  consider (eq) "p = api_parts g" | (below) "strict_prefix (api_parts g) p"
    | (above) "strict_prefix p (api_parts g)"
    | (apart) "p \<noteq> api_parts g" "\<not> strict_prefix (api_parts g) p" "\<not> strict_prefix p (api_parts g)"
    by blast
  then show ?case
  proof cases
    case eq
    then show ?thesis by (auto simp: plain_build_snoc peek_plain_add)
  next
    case below
    have "\<not> prefix p (api_parts f)" if "f \<in> set (fs @ [g])" for f
    proof
      assume "prefix p (api_parts f)"
      then have "strict_prefix (api_parts g) (api_parts f)"
        using below by (auto simp: strict_prefix_def prefix_def)
      then have "prefix (api_parts g) (api_parts f)" "api_parts g \<noteq> api_parts f"
        by (auto simp: strict_prefix_def)
      moreover have "g = f"
        using conflict_freeD[OF snoc.prems, of g f] that calculation by auto
      ultimately show False by simp
    qed
    moreover have "p \<noteq> []" using below by auto
    ultimately show ?thesis using below
      by (auto simp: plain_build_snoc peek_plain_add)
  next
    case above
    then show ?thesis
      by (auto simp: plain_build_snoc peek_plain_add settle_not_Absent strict_prefix_def)
  next
    case apart
    then have "\<not> prefix p (api_parts g)" by (auto simp: strict_prefix_def)
    then show ?thesis using apart IH
      by (auto simp: plain_build_snoc peek_plain_add)
  qed
qed

lemma peek_plain_build_perm:
  assumes "conflict_free fs" and "mset fs = mset fs'"
  shows "peek (plain_build dflag fs) p = peek (plain_build dflag fs') p"
proof -
  have s: "set fs = set fs'" using assms(2) by (rule mset_eq_setD)
  have cf': "conflict_free fs'" using assms(1) conflict_free_set[OF s] by simp
  show ?thesis
  proof (cases "peek (plain_build dflag fs) p")
    case Absent
    then show ?thesis
      using peek_plain_build_Absent_iff[OF assms(1), of dflag p]
        peek_plain_build_Absent_iff[OF cf', of dflag p] s by simp
  next
    case (Callable fp)
    then show ?thesis
      using peek_plain_build_Callable_iff[OF assms(1), of dflag p fp]
        peek_plain_build_Callable_iff[OF cf', of dflag p fp] s by simp
  next
    case Namespace
    have "peek (plain_build dflag fs') p \<noteq> Absent"
      using Namespace peek_plain_build_Absent_iff[OF assms(1), of dflag p]
        peek_plain_build_Absent_iff[OF cf', of dflag p] s by simp
    moreover have "peek (plain_build dflag fs') p \<noteq> Callable fp" for fp
      using Namespace peek_plain_build_Callable_iff[OF assms(1), of dflag p fp]
        peek_plain_build_Callable_iff[OF cf', of dflag p fp] s by simp
    ultimately show ?thesis using Namespace
      by (cases "peek (plain_build dflag fs') p") auto
  qed
qed

section \<open>When the loop completes\<close>





lemma assign_NoProperty: "read_prop n k = NoProperty \<Longrightarrow> assign k v n = Done (set_prop k v n)"
  by (cases n)
    (auto simp: read_prop_def assign_def function_own_names_def function_prototype_names_def
       object_prototype_names_def split: option.splits if_splits)






text \<open>
  Where no leaf stands above the path, the walk passes plain objects only, and less is
  needed: the parts but the last are no property of \<^verbatim>\<open>Object.prototype\<close>, and the last
  part is not \<^verbatim>\<open>__proto__\<close>. Such a walk completes; a walk along any other path, through a
  tree that does not yet hold its offending part, leaves the model.
\<close>

definition plain_path :: "string list \<Rightarrow> bool" where
  "plain_path ks =
     (ks \<noteq> [] \<and> last ks \<noteq> ''__proto__''
      \<and> list_all (\<lambda>k. k \<notin> set object_prototype_names) (butlast ks))"

lemma plain_path_Cons:
  "rest \<noteq> [] \<Longrightarrow>
   plain_path (part # rest) \<longleftrightarrow> part \<notin> set object_prototype_names \<and> plain_path rest"
  by (auto simp: plain_path_def)

lemma plain_path_single: "plain_path [k] \<longleftrightarrow> k \<noteq> ''__proto__''"
  by (simp add: plain_path_def)

lemma not_Callable_Obj: "(\<And>fp. binding_of n \<noteq> Callable fp) \<Longrightarrow> \<exists>i ps. n = Obj i ps"
  by (cases n) auto

lemma assign_Obj: "k \<noteq> ''__proto__'' \<Longrightarrow> assign k v (Obj i ps) = Done (set_prop k v (Obj i ps))"
  by (simp add: assign_def)

lemma insert_leaf_plain_path:
  assumes "plain_path ks"
    and "\<And>q fp. strict_prefix q ks \<Longrightarrow> peek cur q \<noteq> Callable fp"
  shows "insert_leaf i j ks leaf cur = Done (plain_insert i j ks leaf cur)"
  using assms
proof (induction i j ks leaf cur rule: insert_leaf.induct)
  case (1 i j leaf current)
  then show ?case by (simp add: plain_path_def)
next
  case (2 i j functionName leaf current)
  have "\<And>fp. binding_of current \<noteq> Callable fp"
    using "2.prems"(2)[of "[]"] by (simp add: peek_Nil)
  then obtain i' ps where "current = Obj i' ps" using not_Callable_Obj by blast
  then show ?case using "2.prems"(1) by (simp add: plain_path_single assign_Obj)
next
  case (3 i j part v va leaf current)
  have "\<And>fp. binding_of current \<noteq> Callable fp"
    using "3.prems"(2)[of "[]"] by (simp add: peek_Nil)
  then obtain i' ps where cur: "current = Obj i' ps" using not_Callable_Obj by blast
  have p: "part \<notin> set object_prototype_names" and r: "plain_path (v # va)"
    using "3.prems"(1) by (simp_all add: plain_path_Cons)
  show ?case
  proof (cases "get_own current part")
    case None
    then have n: "read_prop current part = NoProperty" using p cur by (simp add: read_prop_def)
    have "insert_leaf i (Suc j) (v # va) leaf (Obj (NamespaceObject i j) [])
        = Done (plain_insert i (Suc j) (v # va) leaf (Obj (NamespaceObject i j) []))"
      by (rule "3.IH"(2)[OF n r]) (simp add: peek_empty_Obj)
    then show ?thesis using n None by (simp add: put_back_def)
  next
    case (Some c)
    then have n: "read_prop current part = OwnProperty c" by (simp add: read_prop_Own)
    have "insert_leaf i (Suc j) (v # va) leaf c = Done (plain_insert i (Suc j) (v # va) leaf c)"
    proof (rule "3.IH"(1)[OF n r])
      fix q fp assume "strict_prefix q (v # va)"
      then have "strict_prefix (part # q) (part # v # va)" by simp
      then have "peek current (part # q) \<noteq> Callable fp" by (rule "3.prems"(2))
      then show "peek c q \<noteq> Callable fp" using Some by (simp add: peek_Cons)
    qed
    then show ?thesis using n Some by (simp add: put_back_def)
  qed
qed

lemma insert_leaf_not_plain_path:
  assumes "ks \<noteq> []" and "\<not> plain_path ks"
    and "\<And>q fp. strict_prefix q ks \<Longrightarrow> peek cur q \<noteq> Callable fp"
    and "\<And>q k. strict_prefix (q @ [k]) ks \<Longrightarrow> k \<in> set object_prototype_names
           \<Longrightarrow> peek cur (q @ [k]) = Absent"
  shows "insert_leaf i j ks leaf cur = Beyond"
  using assms
proof (induction i j ks leaf cur rule: insert_leaf.induct)
  case (1 i j leaf current)
  then show ?case by simp
next
  case (2 i j functionName leaf current)
  then show ?case by (simp add: plain_path_single assign_def)
next
  case (3 i j part v va leaf current)
  have "\<And>fp. binding_of current \<noteq> Callable fp"
    using "3.prems"(3)[of "[]"] by (simp add: peek_Nil)
  then obtain i' ps where cur: "current = Obj i' ps" using not_Callable_Obj by blast
  show ?case
  proof (cases "part \<in> set object_prototype_names")
    case True
    have "strict_prefix ([] @ [part]) (part # v # va)" by simp
    then have "peek current ([] @ [part]) = Absent" using True by (rule "3.prems"(4))
    then have "get_own current part = None"
      by (auto simp: peek_Cons peek_Nil binding_of_not_Absent split: option.splits)
    then have "read_prop current part = BuiltinProperty" using True cur
      by (simp add: read_prop_def)
    then show ?thesis by simp
  next
    case False
    then have r: "\<not> plain_path (v # va)" using "3.prems"(2) by (simp add: plain_path_Cons)
    show ?thesis
    proof (cases "get_own current part")
      case None
      then have n: "read_prop current part = NoProperty" using False cur
        by (simp add: read_prop_def)
      have "insert_leaf i (Suc j) (v # va) leaf (Obj (NamespaceObject i j) []) = Beyond"
        by (rule "3.IH"(2)[OF n _ r]) (simp_all add: peek_empty_Obj)
      then show ?thesis using n by (simp add: put_back_def)
    next
      case (Some c)
      then have n: "read_prop current part = OwnProperty c" by (simp add: read_prop_Own)
      have "insert_leaf i (Suc j) (v # va) leaf c = Beyond"
      proof (rule "3.IH"(1)[OF n _ r])
        show "v # va \<noteq> []" by simp
      next
        fix q fp assume "strict_prefix q (v # va)"
        then have "strict_prefix (part # q) (part # v # va)" by simp
        then have "peek current (part # q) \<noteq> Callable fp" by (rule "3.prems"(3))
        then show "peek c q \<noteq> Callable fp" using Some by (simp add: peek_Cons)
      next
        fix q k assume "strict_prefix (q @ [k]) (v # va)" and k: "k \<in> set object_prototype_names"
        then have "strict_prefix ((part # q) @ [k]) (part # v # va)" by simp
        then have "peek current ((part # q) @ [k]) = Absent" using k by (rule "3.prems"(4))
        then show "peek c (q @ [k]) = Absent" using Some by (simp add: peek_Cons)
      qed
      then show ?thesis using n by (simp add: put_back_def)
    qed
  qed
qed

lemma plain_build_snoc':
  "fold (plain_add d) (enumerate 0 (fs @ [g])) (Obj RootObject [])
     = plain_add d (length fs, g) (plain_build d fs)"
  by (simp add: plain_build_def enumerate_append_eq)

text \<open>
  For a list free of conflicts the loop never meets a leaf on its way, so it completes
  when every path is plain and leaves the model otherwise: the outcome does not depend
  on the order.
\<close>

lemma build_loop_conflict_free:
  assumes "conflict_free fs"
  shows "fst (build_loop d 0 fs (Obj RootObject []) m) =
     (if list_all (\<lambda>f. plain_path (api_parts f)) fs then Done (plain_build d fs) else Beyond)"
  using assms
proof (induction fs rule: rev_induct)
  case Nil
  then show ?case by (simp add: plain_build_def)
next
  case (snoc g fs)
  have cf: "conflict_free fs" using snoc.prems by (rule conflict_free_butlast)
  note IH = snoc.IH[OF cf]
  obtain r m1 where b: "build_loop d 0 fs (Obj RootObject []) m = (r, m1)"
    by (cases "build_loop d 0 fs (Obj RootObject []) m")
  show ?case
  proof (cases "list_all (\<lambda>f. plain_path (api_parts f)) fs")
    case False
    then have "r = Beyond" using IH b by simp
    then show ?thesis using False b by (simp add: build_loop_append)
  next
    case True
    then have r: "r = Done (plain_build d fs)" using IH b by simp
    let ?t = "plain_build d fs"
    let ?leaf = "Fn (FunctionObject (length fs)) (createFunctionProxy g d) []"
    have step: "fst (build_loop d 0 (fs @ [g]) (Obj RootObject []) m)
        = (case add_function d (length fs, g) ?t of
             Done t' \<Rightarrow> Done t' | Threw e \<Rightarrow> Threw e | Beyond \<Rightarrow> Beyond)"
      using b r by (simp add: build_loop_append split: outcome.splits)
    have noleaf: "peek ?t q \<noteq> Callable fp" if "strict_prefix q (api_parts g)" for q fp
    proof
      assume "peek ?t q = Callable fp"
      then obtain f where f: "f \<in> set fs" "api_parts f = q"
        using peek_plain_build_sound by blast
      then have "prefix (api_parts f) (api_parts g)" "api_parts f \<noteq> api_parts g"
        using that by (auto simp: strict_prefix_def)
      moreover have "f = g"
        using conflict_freeD[OF snoc.prems, of f g] f(1) calculation(1) by simp
      ultimately show False by simp
    qed
    show ?thesis
    proof (cases "plain_path (api_parts g)")
      case pg: True
      have "add_function d (length fs, g) ?t = Done (plain_add d (length fs, g) ?t)"
        unfolding add_function_def plain_add_def fst_conv snd_conv
        using pg noleaf by (rule insert_leaf_plain_path)
      then show ?thesis using step True pg
        by (simp add: plain_build_snoc' plain_build_def)
    next
      case npg: False
      have fresh: "peek ?t (q @ [k]) = Absent"
        if sp: "strict_prefix (q @ [k]) (api_parts g)" and k: "k \<in> set object_prototype_names"
        for q k
      proof -
        have "\<not> prefix (q @ [k]) (api_parts f)" if f: "f \<in> set fs" for f
        proof
          assume pf: "prefix (q @ [k]) (api_parts f)"
          show False
          proof (cases "q @ [k] = api_parts f")
            case True
            then have "prefix (api_parts f) (api_parts g)" "api_parts f \<noteq> api_parts g"
              using sp by (auto simp: strict_prefix_def)
            moreover have "f = g"
              using conflict_freeD[OF snoc.prems, of f g] f calculation(1) by simp
            ultimately show False by simp
          next
            case False
            then obtain zs where zs: "api_parts f = q @ [k] @ zs" "zs \<noteq> []"
              using pf by (auto simp: prefix_def)
            then have "k \<in> set (butlast (api_parts f))"
              by (simp add: butlast_append)
            moreover have "plain_path (api_parts f)"
              using \<open>list_all (\<lambda>f. plain_path (api_parts f)) fs\<close> f by (simp add: list_all_iff)
            ultimately show False using k by (auto simp: plain_path_def list_all_iff)
          qed
        qed
        then show ?thesis
          using peek_plain_build_Absent_iff[OF cf, of d "q @ [k]"] by simp
      qed
      have "add_function d (length fs, g) ?t = Beyond"
        unfolding add_function_def fst_conv snd_conv
        using api_parts_nonempty npg noleaf fresh by (rule insert_leaf_not_plain_path)
      then show ?thesis using step npg by simp
    qed
  qed
qed

section \<open>Navigation through the proxies\<close>

text \<open>
  \<open>node_of v\<close> is the object a value stands for: the target of a proxy, or the plain
  object itself. A state of the cache extends another one when it still maps every
  target cached there to the same proxy.
\<close>

fun node_of :: "jsvalue \<Rightarrow> node option" where
  "node_of Undefined = None"
| "node_of (Proxy p n) = Some n"
| "node_of (Plain n) = Some n"

definition extends :: "proxy_state \<Rightarrow> proxy_state \<Rightarrow> bool" where
  "extends st st' = (\<forall>k p. map_of (proxyCache st) k = Some p \<longrightarrow> map_of (proxyCache st') k = Some p)"

lemma extends_refl: "extends st st"
  by (simp add: extends_def)

lemma extends_trans: "extends a b \<Longrightarrow> extends b c \<Longrightarrow> extends a c"
  by (simp add: extends_def)

lemma createProxy_extends: "createProxy obj st = (v, st') \<Longrightarrow> extends st st'"
  by (auto simp: createProxy_def extends_def split: option.splits)

lemma createProxy_again:
  "createProxy obj st = (v, st') \<Longrightarrow> extends st' st2 \<Longrightarrow> createProxy obj st2 = (v, st2)"
  by (auto simp: createProxy_def extends_def split: option.splits)

lemma createProxy_node: "createProxy obj st = (v, st') \<Longrightarrow> node_of v = Some obj"
  by (auto simp: createProxy_def split: option.splits)

lemma proxy_get_extends: "proxy_get t k st = (r, st') \<Longrightarrow> extends st st'"
  by (auto simp: proxy_get_def extends_refl createProxy_extends
      split: property.splits node.splits if_splits prod.splits)

lemma proxy_get_again:
  "proxy_get t k st = (r, st') \<Longrightarrow> extends st' st2 \<Longrightarrow> proxy_get t k st2 = (r, st2)"
  by (auto simp: proxy_get_def createProxy_again
      split: property.splits node.splits if_splits prod.splits)

lemma get_property_extends: "get_property v k st = (r, st') \<Longrightarrow> extends st st'"
  by (cases v) (auto simp: extends_refl proxy_get_extends split: property.splits)

lemma get_property_again:
  "get_property v k st = (r, st') \<Longrightarrow> extends st' st2 \<Longrightarrow> get_property v k st2 = (r, st2)"
  by (cases v) (auto simp: proxy_get_again split: property.splits)

lemma navigate_extends: "navigate v ps st = (r, st') \<Longrightarrow> extends st st'"
proof (induction ps arbitrary: v st)
  case Nil
  then show ?case by (simp add: extends_refl)
next
  case (Cons k ps)
  obtain r1 st1 where g: "get_property v k st = (r1, st1)" by (cases "get_property v k st")
  then have e: "extends st st1" by (rule get_property_extends)
  show ?case
  proof (cases r1)
    case (Done v1)
    then have "navigate v1 ps st1 = (r, st')" using Cons.prems g by simp
    then have "extends st1 st'" by (rule Cons.IH)
    with e show ?thesis by (rule extends_trans)
  qed (use Cons.prems g e in auto)
qed

lemma navigate_again:
  "navigate v ps st = (r, st') \<Longrightarrow> extends st' st2 \<Longrightarrow> navigate v ps st2 = (r, st2)"
proof (induction ps arbitrary: v st)
  case Nil
  then show ?case by simp
next
  case (Cons k ps)
  obtain r1 st1 where g: "get_property v k st = (r1, st1)" by (cases "get_property v k st")
  show ?case
  proof (cases r1)
    case (Threw err)
    then have "st' = st1" "r = Threw err" using Cons.prems(1) g by auto
    then have "get_property v k st2 = (Threw err, st2)"
      using g Threw Cons.prems(2) get_property_again by blast
    then show ?thesis using \<open>r = Threw err\<close> by simp
  next
    case Beyond
    then have "st' = st1" "r = Beyond" using Cons.prems(1) g by auto
    then have "get_property v k st2 = (Beyond, st2)"
      using g Beyond Cons.prems(2) get_property_again by blast
    then show ?thesis using \<open>r = Beyond\<close> by simp
  next
    case (Done v1)
    then have n: "navigate v1 ps st1 = (r, st')" using Cons.prems g by simp
    then have "extends st1 st'" by (rule navigate_extends)
    then have "extends st1 st2" using Cons.prems(2) by (rule extends_trans)
    then have "get_property v k st2 = (Done v1, st2)"
      using g Done get_property_again by blast
    moreover have "navigate v1 ps st2 = (r, st2)"
      using n Cons.prems(2) by (rule Cons.IH)
    ultimately show ?thesis by simp
  qed
qed

text \<open>
  What a navigation returns is what stands at the end of the path in the tree, and
  everything in the tree is reached unless a hidden name is on the way.
\<close>

lemma get_property_sound:
  "get_property v k st = (Done v', st') \<Longrightarrow> node_of v' = Some m \<Longrightarrow>
   \<exists>n. node_of v = Some n \<and> get_own n k = Some m"
  by (cases v)
    (auto simp: proxy_get_def read_prop_Own dest: createProxy_node
      split: property.splits prod.splits node.splits if_splits)

lemma navigate_sound:
  "navigate v ps st = (Done v', st') \<Longrightarrow> node_of v' = Some m \<Longrightarrow>
   \<exists>n. node_of v = Some n \<and> descend n ps = Some m"
proof (induction ps arbitrary: v st)
  case Nil
  then show ?case by simp
next
  case (Cons k ps)
  obtain r1 st1 where g: "get_property v k st = (r1, st1)" by (cases "get_property v k st")
  show ?case
  proof (cases r1)
    case (Done v1)
    then have "navigate v1 ps st1 = (Done v', st')" using Cons.prems g by simp
    then obtain n1 where n1: "node_of v1 = Some n1" "descend n1 ps = Some m"
      using Cons.IH Cons.prems(2) by blast
    then obtain n where "node_of v = Some n" "get_own n k = Some n1"
      using get_property_sound g Done by blast
    then show ?thesis using n1 by simp
  qed (use Cons.prems g in auto)
qed




text \<open>
  The function object a navigation from the root of a tree instance arrives at, if it
  arrives at one.
\<close>

definition callable_at :: "tree_instance \<Rightarrow> string list \<Rightarrow> FunctionProxy option outcome" where
  "callable_at T p =
     (case navigate (root T) p (cache T) of
        (Done v, st') \<Rightarrow>
          Done (case node_of v of Some (Fn i fp ps) \<Rightarrow> Some fp | _ \<Rightarrow> None)
      | (Threw e, st') \<Rightarrow> Threw e
      | (Beyond, st') \<Rightarrow> Beyond)"

text \<open>A descriptor with the given identifier, type and visibility kind, for examples.\<close>

definition descriptor :: "string \<Rightarrow> functionType \<Rightarrow> string \<Rightarrow> FunctionSpec" where
  "descriptor ident ty k =
     \<lparr>identifier' = ident, functionType = ty, args = ''{}'', returns = ''{}'',
      visibility = Some \<lparr>kind = Some k\<rparr>\<rparr>"

lemma peek_Callable_descend:
  "peek n p = Callable fp \<longleftrightarrow> (\<exists>i ps. descend n p = Some (Fn i fp ps))"
proof (cases "descend n p")
  case None
  then show ?thesis by (simp add: peek_def)
next
  case (Some c)
  then show ?thesis by (cases c) (auto simp: peek_def)
qed

lemma callable_at_sound:
  assumes "callable_at T p = Done (Some fp)" and "node_of (root T) = Some tree"
  shows "peek tree p = Callable fp"
proof -
  from assms(1) obtain v st' i ps where
    nav: "navigate (root T) p (cache T) = (Done v, st')" and v: "node_of v = Some (Fn i fp ps)"
    by (auto simp: callable_at_def split: prod.splits outcome.splits option.splits node.splits)
  from navigate_sound[OF nav v] assms(2) have "descend tree p = Some (Fn i fp ps)" by auto
  then show ?thesis by (auto simp: peek_Callable_descend)
qed


lemma oid_of_set_prop: "oid_of (set_prop k v n) = oid_of n"
  by (cases n) auto

lemma oid_of_plain_insert: "oid_of (plain_insert i j ks leaf cur) = oid_of cur"
  by (induction i j ks leaf cur rule: plain_insert.induct) (auto simp: Let_def oid_of_set_prop)

lemma oid_of_plain_build: "oid_of (plain_build dflag fs) = RootObject"
proof (induction fs rule: rev_induct)
  case Nil
  then show ?case by (simp add: plain_build_def)
next
  case (snoc g fs)
  then show ?case by (simp add: plain_build_snoc plain_add_def oid_of_plain_insert)
qed

text \<open>
  The three ways \<open>createProxyTree\<close> ends. When it completes, the root proxy is the
  first proxy of a new cache, its target is the tree of the completed loop, and every
  descriptor of the requested kind is recorded.
\<close>

definition fresh_instance :: "string \<Rightarrow> FunctionSpec list \<Rightarrow> tree_instance" where
  "fresh_instance dflag fs =
     \<lparr>root = Proxy 0 (plain_build dflag fs),
      cache = \<lparr>proxyCache = [(RootObject, 0)], allocated = 1\<rparr>\<rparr>"

lemma createProxyTree_Done:
  assumes "createProxyTree fs v dflag m = (Done T, m')"
  shows "\<not> list_ex (\<lambda>f. visibility f = None) fs
       \<and> T = fresh_instance dflag (filteredFunctions fs v)
       \<and> m' = record_paths (filteredFunctions fs v) m"
proof -
  have nv: "\<not> list_ex (\<lambda>f. visibility f = None) fs"
    using assms by (auto simp: createProxyTree_def split: if_splits)
  obtain r m1 where b: "build_loop dflag 0 (filteredFunctions fs v) (Obj RootObject []) m = (r, m1)"
    by (cases "build_loop dflag 0 (filteredFunctions fs v) (Obj RootObject []) m")
  from assms nv b obtain t where r: "r = Done t"
    by (cases r) (auto simp: createProxyTree_def)
  from build_loop_Done[OF b[unfolded r]]
  have t: "t = plain_build dflag (filteredFunctions fs v)"
    and m1: "m1 = record_paths (filteredFunctions fs v) m"
    by (simp_all add: plain_build_def)
  have "oid_of t = RootObject" unfolding t by (rule oid_of_plain_build)
  then show ?thesis using assms nv b r t m1
    by (auto simp: createProxyTree_def createProxy_def fresh_instance_def)
qed


lemma createProxyTree_Threw:
  assumes "list_ex (\<lambda>f. visibility f = None) fs"
  shows "createProxyTree fs v dflag m = (Threw type_error, m)"
  using assms by (simp add: createProxyTree_def)

section \<open>The identities of the objects\<close>

text \<open>
  \<open>oid_at\<close> is the identity of the object at the end of a path; \<open>created\<close> is the
  identity a walk leaves there: the one already there, or that of the object made for
  this part.
\<close>

definition oid_at :: "node \<Rightarrow> string list \<Rightarrow> oid option" where
  "oid_at n p = map_option oid_of (descend n p)"

lemma oid_at_Nil: "oid_at n [] = Some (oid_of n)"
  by (simp add: oid_at_def)

lemma oid_at_Cons: "oid_at n (k # ks) = (case get_own n k of None \<Rightarrow> None | Some c \<Rightarrow> oid_at c ks)"
  by (simp add: oid_at_def split: option.splits)

lemma oid_at_empty_Obj: "oid_at (Obj i []) p = (if p = [] then Some i else None)"
  by (cases p) (simp_all add: oid_at_Nil oid_at_Cons get_own_def)

lemma oid_at_empty_Fn: "oid_at (Fn i f []) p = (if p = [] then Some i else None)"
  by (cases p) (simp_all add: oid_at_Nil oid_at_Cons get_own_def)

definition created :: "nat \<Rightarrow> nat \<Rightarrow> string list \<Rightarrow> oid option \<Rightarrow> oid option" where
  "created i j p x = (case x of None \<Rightarrow> Some (NamespaceObject i (j + length p - 1)) | Some y \<Rightarrow> Some y)"

lemma oid_at_plain_insert:
  "ks \<noteq> [] \<Longrightarrow>
   oid_at (plain_insert i j ks leaf cur) p =
     (if p = ks then Some (oid_of leaf)
      else if strict_prefix ks p then oid_at leaf (drop (length ks) p)
      else if strict_prefix p ks then created i j p (oid_at cur p)
      else oid_at cur p)"
proof (induction i j ks leaf cur arbitrary: p rule: plain_insert.induct)
  case (1 i j leaf current)
  then show ?case by simp
next
  case (2 i j functionName leaf current)
  show ?case
    by (cases p)
      (auto simp: oid_at_Nil oid_at_Cons get_own_set_prop oid_of_set_prop created_def
         strict_prefix_Nil_iff)
next
  case (3 i j part v va leaf current)
  show ?case
  proof (cases p)
    case Nil
    then show ?thesis
      by (simp add: oid_at_Nil oid_of_set_prop created_def Let_def)
  next
    case (Cons q qs)
    show ?thesis
    proof (cases "q = part")
      case False
      then show ?thesis using Cons
        by (simp add: oid_at_Cons get_own_set_prop Let_def)
    next
      case True
      define child where "child = (case get_own current part of
                     None \<Rightarrow> Obj (NamespaceObject i j) [] | Some c \<Rightarrow> c)"
      have IH: "oid_at (plain_insert i (Suc j) (v # va) leaf child) qs =
        (if qs = v # va then Some (oid_of leaf)
         else if strict_prefix (v # va) qs then oid_at leaf (drop (length (v # va)) qs)
         else if strict_prefix qs (v # va) then created i (Suc j) qs (oid_at child qs)
         else oid_at child qs)"
        using "3.IH"[of child qs] by (simp add: child_def)
      have step: "oid_at (plain_insert i j (part # v # va) leaf current) p =
          oid_at (plain_insert i (Suc j) (v # va) leaf child) qs"
        using Cons True by (simp add: oid_at_Cons get_own_set_prop Let_def child_def)
      have c1: "created i (Suc j) qs (oid_at child qs) = created i j p (oid_at current p)"
        if "strict_prefix qs (v # va)"
        using Cons True
        by (auto simp: child_def oid_at_Cons oid_at_empty_Obj created_def split: option.splits)
      have c2: "oid_at child qs = oid_at current p" if "\<not> strict_prefix qs (v # va)"
      proof -
        from that have "qs \<noteq> []" by auto
        then show ?thesis
          using Cons True
          by (auto simp: child_def oid_at_Cons oid_at_empty_Obj split: option.splits)
      qed
      show ?thesis
        unfolding step IH using Cons True c1 c2
        by (auto simp del: plain_insert.simps)
    qed
  qed
qed

fun made_before :: "nat \<Rightarrow> oid \<Rightarrow> bool" where
  "made_before n RootObject = True"
| "made_before n (NamespaceObject i j) = (i < n)"
| "made_before n (FunctionObject i) = (i < n)"

lemma oid_at_plain_add:
  "oid_at (plain_add dflag (i, f) t) p =
     (if p = api_parts f then Some (FunctionObject i)
      else if strict_prefix (api_parts f) p then None
      else if strict_prefix p (api_parts f) then created i 0 p (oid_at t p)
      else oid_at t p)"
proof -
  have "strict_prefix (api_parts f) p \<Longrightarrow> drop (length (api_parts f)) p \<noteq> []"
    by (auto simp: strict_prefix_def prefix_def)
  then show ?thesis
    unfolding plain_add_def
    by (simp add: oid_at_plain_insert[OF api_parts_nonempty] oid_at_empty_Fn del: plain_insert.simps)
qed

text \<open>
  In the tree of a completed loop two different places hold objects with different
  identities: a cache keyed by the identity is a cache keyed by the object.
\<close>

lemma identities_of_plain_build:
  "(\<forall>p x. oid_at (plain_build dflag fs) p = Some x \<longrightarrow> made_before (length fs) x)
   \<and> (\<forall>p q x. oid_at (plain_build dflag fs) p = Some x \<and> oid_at (plain_build dflag fs) q = Some x
        \<longrightarrow> p = q)"
proof (induction fs rule: rev_induct)
  case Nil
  show ?case
    by (auto simp: plain_build_def oid_at_empty_Obj split: if_splits)
next
  case (snoc g fs)
  let ?t = "plain_build dflag fs"
  let ?n = "length fs"
  let ?ks = "api_parts g"
  have older: "made_before ?n x" if "oid_at ?t p = Some x" for p x
    using snoc that by blast
  have inj: "p = q" if "oid_at ?t p = Some x" "oid_at ?t q = Some x" for p q x
    using snoc that by blast
  have new: "oid_at (plain_build dflag (fs @ [g])) p =
     (if p = ?ks then Some (FunctionObject ?n)
      else if strict_prefix ?ks p then None
      else if strict_prefix p ?ks then created ?n 0 p (oid_at ?t p)
      else oid_at ?t p)" for p
    by (simp add: plain_build_snoc oid_at_plain_add)
  have kinds: "(p = ?ks \<and> x = FunctionObject ?n)
      \<or> (strict_prefix p ?ks \<and> oid_at ?t p = None \<and> x = NamespaceObject ?n (length p - 1))
      \<or> (p \<noteq> ?ks \<and> oid_at ?t p = Some x)"
    if "oid_at (plain_build dflag (fs @ [g])) p = Some x" for p x
    using that unfolding new
    by (auto simp: created_def split: if_splits option.splits)
  have mb: "\<not> made_before ?n (FunctionObject ?n)" "\<not> made_before ?n (NamespaceObject ?n j)" for j
    by simp_all
  have 1: "made_before (length (fs @ [g])) x"
    if "oid_at (plain_build dflag (fs @ [g])) p = Some x" for p x
  proof -
    from kinds[OF that] show ?thesis
    proof (elim disjE conjE)
      assume "oid_at ?t p = Some x"
      then have "made_before ?n x" by (rule older)
      then show ?thesis by (cases x) auto
    qed auto
  qed
  have 2: "p = q"
    if p: "oid_at (plain_build dflag (fs @ [g])) p = Some x"
      and q: "oid_at (plain_build dflag (fs @ [g])) q = Some x" for p q x
  proof -
    consider (fn) "p = ?ks" "x = FunctionObject ?n"
      | (ns) "strict_prefix p ?ks" "oid_at ?t p = None" "x = NamespaceObject ?n (length p - 1)"
      | (old) "p \<noteq> ?ks" "oid_at ?t p = Some x"
      using kinds[OF p] by (elim disjE conjE) auto
    then show ?thesis
    proof cases
      case fn
      then show ?thesis using kinds[OF q] older[of q x] by auto
    next
      case ns
      from kinds[OF q] show ?thesis
      proof (elim disjE conjE)
        assume "q = ?ks" "x = FunctionObject ?n"
        then show ?thesis using ns by simp
      next
        assume sq: "strict_prefix q ?ks" and "x = NamespaceObject ?n (length q - 1)"
        then have len: "length p - 1 = length q - 1" using ns by simp
        have "p \<noteq> []"
          using ns(2) by (auto simp: oid_at_Nil)
        moreover have "q \<noteq> []"
          using kinds[OF q] ns(3) older[of q x] q
          by (auto simp: oid_at_Nil new split: if_splits)
        ultimately have "length p = length q" using len
          by (cases p; cases q) auto
        moreover have "prefix p ?ks" "prefix q ?ks"
          using ns(1) sq by (auto simp: strict_prefix_def)
        ultimately show ?thesis
          by (metis prefix_length_prefix prefix_order.antisym order_refl)
      next
        assume "oid_at ?t q = Some x"
        then show ?thesis using older[of q x] ns(3) by simp
      qed
    next
      case old
      from kinds[OF q] show ?thesis
      proof (elim disjE conjE)
        assume "oid_at ?t q = Some x"
        then show ?thesis using old(2) inj by blast
      next
        assume "x = FunctionObject ?n"
        then show ?thesis using old(2) older[of p x] by auto
      next
        assume "x = NamespaceObject ?n (length q - 1)"
        then show ?thesis using old(2) older[of p x] by auto
      qed
    qed
  qed
  show ?case using 1 2 by blast
qed

section \<open>Leaf collisions\<close>




text \<open>
  Nor is it true that no error is raised. Here two descriptors derive \<open>a.b\<close>, and a
  third one derives \<open>a.b.name\<close>: its walk arrives at the function object bound at \<open>a.b\<close>
  and assigns to the \<^verbatim>\<open>name\<close> of that function, which is read-only. The loop throws
  after it has recorded the first two descriptors.
\<close>

lemma collision_type_error:
  "createProxyTree
      [descriptor ''a.js:b'' Query ''public'', descriptor ''a.js:b'' Mutation ''public'',
       descriptor ''a/b.js:name'' Query ''public'']
      ''public'' [] []
   = (Threw type_error, [(''a.b'', descriptor ''a.js:b'' Mutation ''public'')])"
  by code_simp

section \<open>Order of the descriptors\<close>

text \<open>
  Claim C5, as amended. Take a descriptor list and a permutation of it such that among
  the descriptors of the requested visibility no path is a prefix of, or equal to, the
  path of a different descriptor. Then the two calls end alike: both throw because a
  descriptor lacks its visibility, or both leave the model (a path runs into a property
  of \<^verbatim>\<open>Object.prototype\<close>), or both complete, and then the two trees hold the same thing
  at every path (nothing, a namespace, or a callable bound to the same descriptor). The
  order of the keys within an object is not part of the statement.
\<close>

theorem tree_order_independent:
  assumes "mset fs = mset fs'"
    and "conflict_free (filteredFunctions fs v)"
  shows "(fst (createProxyTree fs v dflag m) = Threw type_error
           \<and> fst (createProxyTree fs' v dflag m) = Threw type_error)
      \<or> (fst (createProxyTree fs v dflag m) = Beyond
           \<and> fst (createProxyTree fs' v dflag m) = Beyond)
      \<or> (\<exists>T m1 tree T' m2 tree'.
            createProxyTree fs v dflag m = (Done T, m1) \<and> node_of (root T) = Some tree
          \<and> createProxyTree fs' v dflag m = (Done T', m2) \<and> node_of (root T') = Some tree'
          \<and> (\<forall>p. peek tree p = peek tree' p))"
proof -
  have s: "set fs = set fs'" using assms(1) by (rule mset_eq_setD)
  let ?xs = "filteredFunctions fs v"
  let ?ys = "filteredFunctions fs' v"
  have ms: "mset ?xs = mset ?ys" using assms(1) by (simp add: filteredFunctions_def)
  then have ss: "set ?xs = set ?ys" by (rule mset_eq_setD)
  have cf': "conflict_free ?ys" using assms(2) conflict_free_set[OF ss] by simp
  show ?thesis
  proof (cases "list_ex (\<lambda>f. visibility f = None) fs")
    case True
    then have "list_ex (\<lambda>f. visibility f = None) fs'" using s by (simp add: list_ex_iff)
    then show ?thesis using True by (simp add: createProxyTree_Threw)
  next
    case False
    then have False': "\<not> list_ex (\<lambda>f. visibility f = None) fs'" using s by (simp add: list_ex_iff)
    obtain r1 m1 where b1: "build_loop dflag 0 ?xs (Obj RootObject []) m = (r1, m1)"
      by (cases "build_loop dflag 0 ?xs (Obj RootObject []) m")
    obtain r2 m2 where b2: "build_loop dflag 0 ?ys (Obj RootObject []) m = (r2, m2)"
      by (cases "build_loop dflag 0 ?ys (Obj RootObject []) m")
    have r1: "r1 = (if list_all (\<lambda>f. plain_path (api_parts f)) ?xs
                   then Done (plain_build dflag ?xs) else Beyond)"
      using build_loop_conflict_free[OF assms(2), of dflag m] b1 by simp
    have r2: "r2 = (if list_all (\<lambda>f. plain_path (api_parts f)) ?ys
                   then Done (plain_build dflag ?ys) else Beyond)"
      using build_loop_conflict_free[OF cf', of dflag m] b2 by simp
    have same: "list_all (\<lambda>f. plain_path (api_parts f)) ?xs
        = list_all (\<lambda>f. plain_path (api_parts f)) ?ys"
      using ss by (simp add: list_all_iff)
    show ?thesis
    proof (cases "list_all (\<lambda>f. plain_path (api_parts f)) ?xs")
      case no: False
      then have "fst (createProxyTree fs v dflag m) = Beyond"
        using False b1 r1 by (simp add: createProxyTree_def)
      moreover have "fst (createProxyTree fs' v dflag m) = Beyond"
        using False' b2 r2 no same by (simp add: createProxyTree_def)
      ultimately show ?thesis by simp
    next
      case yes: True
      have o1: "oid_of (plain_build dflag ?xs) = RootObject" by (rule oid_of_plain_build)
      have o2: "oid_of (plain_build dflag ?ys) = RootObject" by (rule oid_of_plain_build)
      have c1: "createProxyTree fs v dflag m = (Done (fresh_instance dflag ?xs), m1)"
        using False b1 r1 yes o1
        by (simp add: createProxyTree_def createProxy_def fresh_instance_def)
      have c2: "createProxyTree fs' v dflag m = (Done (fresh_instance dflag ?ys), m2)"
        using False' b2 r2 yes same o2
        by (simp add: createProxyTree_def createProxy_def fresh_instance_def)
      have "peek (plain_build dflag ?xs) p = peek (plain_build dflag ?ys) p" for p
        using assms(2) ms by (rule peek_plain_build_perm)
      then show ?thesis using c1 c2 by (simp add: fresh_instance_def)
    qed
  qed
qed

theorem tree_order_independent_witness:
  "mset [descriptor ''users.js:list'' Query ''public'', descriptor ''users.js:get'' Query ''public'']
     = mset [descriptor ''users.js:get'' Query ''public'', descriptor ''users.js:list'' Query ''public'']
   \<and> conflict_free (filteredFunctions
        [descriptor ''users.js:list'' Query ''public'', descriptor ''users.js:get'' Query ''public'']
        ''public'')
   \<and> (case (createProxyTree
            [descriptor ''users.js:list'' Query ''public'', descriptor ''users.js:get'' Query ''public'']
            ''public'' [] [],
          createProxyTree
            [descriptor ''users.js:get'' Query ''public'', descriptor ''users.js:list'' Query ''public'']
            ''public'' [] []) of
      ((Done T, m1), (Done T', m2)) \<Rightarrow>
         callable_at T [''users'', ''list''] = callable_at T' [''users'', ''list'']
       \<and> callable_at T [''users'', ''get''] = callable_at T' [''users'', ''get'']
       \<and> callable_at T [''users'', ''list'']
           = Done (Some (createFunctionProxy (descriptor ''users.js:list'' Query ''public'') []))
    | _ \<Rightarrow> False)"
proof -
  let ?d1 = "descriptor ''users.js:list'' Query ''public''"
  let ?d2 = "descriptor ''users.js:get'' Query ''public''"
  have a1: "mset [?d1, ?d2] = mset [?d2, ?d1]" by simp
  have a2: "conflict_free (filteredFunctions [?d1, ?d2] ''public'')" by code_simp
  have e: "(case (createProxyTree [?d1, ?d2] ''public'' [] [],
          createProxyTree [?d2, ?d1] ''public'' [] []) of
      ((Done T, m1), (Done T', m2)) \<Rightarrow>
         callable_at T [''users'', ''list''] = callable_at T' [''users'', ''list'']
       \<and> callable_at T [''users'', ''get''] = callable_at T' [''users'', ''get'']
       \<and> callable_at T [''users'', ''list''] = Done (Some (createFunctionProxy ?d1 []))
    | _ \<Rightarrow> False)"
    by code_simp
  show ?thesis
    using tree_order_independent[OF a1 a2, of "[]" "[]"] e a1 a2 by simp
qed

text \<open>
  The claim as stated fails when two different descriptors derive the same path: the
  one inserted last is bound, so the order decides.
\<close>

theorem tree_order_counterexample:
  "mset [descriptor ''a.js:f'' Query ''public'', descriptor ''a.ts:f'' Query ''public'']
     = mset [descriptor ''a.ts:f'' Query ''public'', descriptor ''a.js:f'' Query ''public'']
   \<and> (case (createProxyTree
            [descriptor ''a.js:f'' Query ''public'', descriptor ''a.ts:f'' Query ''public'']
            ''public'' [] [],
          createProxyTree
            [descriptor ''a.ts:f'' Query ''public'', descriptor ''a.js:f'' Query ''public'']
            ''public'' [] []) of
      ((Done T, m1), (Done T', m2)) \<Rightarrow>
         callable_at T [''a'', ''f'']
           = Done (Some (createFunctionProxy (descriptor ''a.ts:f'' Query ''public'') []))
       \<and> callable_at T' [''a'', ''f'']
           = Done (Some (createFunctionProxy (descriptor ''a.js:f'' Query ''public'') []))
       \<and> callable_at T [''a'', ''f''] \<noteq> callable_at T' [''a'', ''f'']
    | _ \<Rightarrow> False)"
proof -
  have "mset [descriptor ''a.js:f'' Query ''public'', descriptor ''a.ts:f'' Query ''public'']
     = mset [descriptor ''a.ts:f'' Query ''public'', descriptor ''a.js:f'' Query ''public'']"
    by simp
  moreover have "(case (createProxyTree
            [descriptor ''a.js:f'' Query ''public'', descriptor ''a.ts:f'' Query ''public'']
            ''public'' [] [],
          createProxyTree
            [descriptor ''a.ts:f'' Query ''public'', descriptor ''a.js:f'' Query ''public'']
            ''public'' [] []) of
      ((Done T, m1), (Done T', m2)) \<Rightarrow>
         callable_at T [''a'', ''f'']
           = Done (Some (createFunctionProxy (descriptor ''a.ts:f'' Query ''public'') []))
       \<and> callable_at T' [''a'', ''f'']
           = Done (Some (createFunctionProxy (descriptor ''a.js:f'' Query ''public'') []))
       \<and> callable_at T [''a'', ''f''] \<noteq> callable_at T' [''a'', ''f'']
    | _ \<Rightarrow> False)"
    by code_simp
  ultimately show ?thesis by blast
qed

text \<open>
  A list free of conflicts with a path through \<^verbatim>\<open>__proto__\<close>: in either order the loop
  reads that property of the root object, which the root inherits, and leaves the model.
\<close>

lemma proto_path_leaves_model:
  "conflict_free [descriptor ''__proto__/a.js:f'' Query ''public'', descriptor ''a.js:g'' Query ''public'']
   \<and> fst (createProxyTree
        [descriptor ''__proto__/a.js:f'' Query ''public'', descriptor ''a.js:g'' Query ''public'']
        ''public'' [] []) = Beyond
   \<and> fst (createProxyTree
        [descriptor ''a.js:g'' Query ''public'', descriptor ''__proto__/a.js:f'' Query ''public'']
        ''public'' [] []) = Beyond"
  by code_simp

section \<open>Identity of the looked-up objects\<close>

text \<open>
  Claim C6. From any value \<open>v\<close> (in particular the root of a tree instance returned by
  \<open>createProxyTree\<close>) and any state of the proxy cache, a lookup of a path followed by a
  second lookup of the same path returns the very same result, proxy identities
  included, and the second lookup creates no proxy.
\<close>

theorem lookups_stable:
  "navigate v ps st = (r, st') \<Longrightarrow> navigate v ps st' = (r, st')"
  using navigate_again[of v ps st r st' st'] extends_refl by simp

theorem lookups_stable_witness:
  "(case createProxyTree [descriptor ''users.js:list'' Query ''public''] ''public'' [] [] of
      (Done T, m') \<Rightarrow>
        (case navigate (root T) [''users''] (cache T) of
           (r, st') \<Rightarrow>
              navigate (root T) [''users''] st' = (r, st')
            \<and> (case r of Done (Proxy p n) \<Rightarrow> p = 1 | _ \<Rightarrow> False))
    | _ \<Rightarrow> False)"
proof -
  have e: "createProxyTree [descriptor ''users.js:list'' Query ''public''] ''public'' [] [] =
    (Done (fresh_instance [] [descriptor ''users.js:list'' Query ''public'']),
     record_paths [descriptor ''users.js:list'' Query ''public''] [])"
    by code_simp
  obtain r st' where n: "navigate (root (fresh_instance [] [descriptor ''users.js:list'' Query ''public'']))
      [''users''] (cache (fresh_instance [] [descriptor ''users.js:list'' Query ''public''])) = (r, st')"
    by (cases "navigate (root (fresh_instance [] [descriptor ''users.js:list'' Query ''public'']))
      [''users''] (cache (fresh_instance [] [descriptor ''users.js:list'' Query ''public'']))")
  have r: "(case fst (navigate (root (fresh_instance [] [descriptor ''users.js:list'' Query ''public'']))
      [''users''] (cache (fresh_instance [] [descriptor ''users.js:list'' Query ''public''])))
      of Done (Proxy p n) \<Rightarrow> p = 1 | _ \<Rightarrow> False)"
    by code_simp
  show ?thesis
    using lookups_stable[OF n] n r unfolding e by simp
qed

section \<open>The outside world, the console and the globals\<close>

text \<open>
  \<^verbatim>\<open>execSync\<close> and \<^verbatim>\<open>JSON.parse\<close> are parameters of the model: \<open>execSync\<close> maps the
  command line to the captured standard output or to the error a failed subprocess
  throws, \<open>JSON_parse\<close> maps a text to the parsed value or to the error thrown for a text
  that is not JSON. In \<open>update\<close> the parsed value has the type \<^verbatim>\<open>ConvexFunctionSpec\<close>, as
  the source declares it. What is written to the console is kept as a list of events, one
  for each call of \<^verbatim>\<open>console.log\<close> or \<^verbatim>\<open>console.error\<close>.
\<close>

datatype console_event =
    LogFetching string
  | LogLoaded nat string
  | LogSkipped nat
  | LogPublic nat
  | LogInternal nat
  | LogReady
  | LogRunning string
  | ErrFetching string
  | ErrRunning string
  | ErrStderr string

text \<open>\<^verbatim>\<open>if (err.stderr) console.error('stderr:', ...)\<close>: an empty text is falsy.\<close>

definition stderr_events :: "js_error \<Rightarrow> console_event list" where
  "stderr_events e =
     (case stderr e of None \<Rightarrow> [] | Some s \<Rightarrow> if s = [] then [] else [ErrStderr s])"

section \<open>\<^verbatim>\<open>update\<close>\<close>

text \<open>
  \<^verbatim>\<open>spec.url.match(/https?:\/\/([^.]+)\./)\<close>: \<open>match_here\<close> matches the expression at
  the start of the text and gives the captured group, \<open>urlMatch\<close> tries every start
  from left to right. After \<^verbatim>\<open>http://\<close> or \<^verbatim>\<open>https://\<close> the group takes the longest run
  of characters other than a dot; the run must not be empty and a dot must follow.
\<close>

definition match_here :: "string \<Rightarrow> string option" where
  "match_here s =
     (let after_scheme =
            (if prefix ''https://'' s then Some (drop 8 s)
             else if prefix ''http://'' s then Some (drop 7 s)
             else None)
      in case after_scheme of
           None \<Rightarrow> None
         | Some t \<Rightarrow>
             (let label = takeWhile (\<lambda>c. c \<noteq> CHR ''.'') t
              in if label \<noteq> [] \<and> length label < length t then Some label else None))"

fun urlMatch :: "string \<Rightarrow> string option" where
  "urlMatch [] = None"
| "urlMatch (c # cs) =
     (case match_here (c # cs) of Some label \<Rightarrow> Some label | None \<Rightarrow> urlMatch cs)"

text \<open>\<^verbatim>\<open>f.visibility && f.visibility.kind\<close> is truthy.\<close>

definition usable :: "FunctionSpec \<Rightarrow> bool" where
  "usable f =
     (case visibility f of
        None \<Rightarrow> False
      | Some vis \<Rightarrow> (case kind vis of None \<Rightarrow> False | Some k \<Rightarrow> k \<noteq> []))"

record UpdateOptions =
  deploymentFlag :: string
  isProd :: bool
  onUpdate :: bool

text \<open>
  The module-level and global variables: \<^verbatim>\<open>globalThis.api\<close> and
  \<^verbatim>\<open>globalThis.internal\<close> (undefined before the first update), \<^verbatim>\<open>deploymentName\<close>,
  \<^verbatim>\<open>functionsByPath\<close>, the console, and the names the \<^verbatim>\<open>onUpdate\<close> callback has been
  called with (\<open>onUpdate\<close> of the options tells whether a callback was given; the
  callback itself does not throw).
\<close>

record globals =
  api :: "tree_instance option"
  internal :: "tree_instance option"
  deploymentName :: string
  functionsByPath :: "(string \<times> FunctionSpec) list"
  console :: "console_event list"
  notified :: "string list"

definition initial_globals :: globals where
  "initial_globals =
     \<lparr>api = None, internal = None, deploymentName = ''unknown'', functionsByPath = [],
      console = [], notified = []\<rparr>"

record update_result =
  result_api :: tree_instance
  result_internal :: tree_instance
  result_deploymentName :: string

definition log :: "console_event \<Rightarrow> globals \<Rightarrow> globals" where
  "log ev g = g\<lparr>console := console g @ [ev]\<rparr>"

text \<open>The \<^verbatim>\<open>catch\<close> block: report the error and throw it again.\<close>

definition fetch_failed :: "js_error \<Rightarrow> globals \<Rightarrow> update_result outcome \<times> globals" where
  "fetch_failed e g =
     (Threw e, g\<lparr>console := console g @ [ErrFetching (message e)] @ stderr_events e\<rparr>)"

definition fetch_command :: "UpdateOptions \<Rightarrow> string" where
  "fetch_command options = trim (''npx convex function-spec '' @ deploymentFlag options)"

text \<open>
  \<open>update\<close> itself. Everything from the fetch to the final message is inside the \<^verbatim>\<open>try\<close>
  block, so an exception of \<open>createProxyTree\<close> goes to the \<^verbatim>\<open>catch\<close> block as well; by then
  the deployment name is set, the counts are printed and the loop has recorded some
  descriptors. Where a loop leaves the model, the state is returned as it is at that
  moment.
\<close>

definition update ::
  "UpdateOptions \<Rightarrow> (string \<Rightarrow> js_error + string) \<Rightarrow> (string \<Rightarrow> js_error + ConvexFunctionSpec)
     \<Rightarrow> globals \<Rightarrow> update_result outcome \<times> globals" where
  "update options execSync JSON_parse g =
     (let g0 = log (LogFetching (if isProd options then ''production'' else ''dev'')) g
      in case execSync (fetch_command options) of
           Inl e \<Rightarrow> fetch_failed e g0
         | Inr output \<Rightarrow>
        (case JSON_parse output of
           Inl e \<Rightarrow> fetch_failed e g0
         | Inr parsed \<Rightarrow>
        (let g1 = (case urlMatch (url parsed) of
                     Some label \<Rightarrow> g0\<lparr>deploymentName := label\<rparr>
                   | None \<Rightarrow> g0);
             g2 = log (LogLoaded (length (functions' parsed)) (url parsed)) g1;
             validFunctions = filter usable (functions' parsed);
             publicCount = length (filter (has_kind ''public'') validFunctions);
             internalCount = length (filter (has_kind ''internal'') validFunctions);
             invalidCount = length (functions' parsed) - length validFunctions;
             g3 = (if invalidCount > 0 then log (LogSkipped invalidCount) g2 else g2);
             g4 = log (LogInternal internalCount) (log (LogPublic publicCount) g3)
         in case createProxyTree validFunctions ''public'' (deploymentFlag options)
                   (functionsByPath g4) of
              (Threw e, recorded) \<Rightarrow> fetch_failed e (g4\<lparr>functionsByPath := recorded\<rparr>)
            | (Beyond, recorded) \<Rightarrow> (Beyond, g4\<lparr>functionsByPath := recorded\<rparr>)
            | (Done apiProxy, recorded) \<Rightarrow>
           (case createProxyTree validFunctions ''internal'' (deploymentFlag options) recorded of
              (Threw e, recorded') \<Rightarrow> fetch_failed e (g4\<lparr>functionsByPath := recorded'\<rparr>)
            | (Beyond, recorded') \<Rightarrow> (Beyond, g4\<lparr>functionsByPath := recorded'\<rparr>)
            | (Done internalProxy, recorded') \<Rightarrow>
           (let g5 = g4\<lparr>functionsByPath := recorded', api := Some apiProxy,
                        internal := Some internalProxy\<rparr>;
                g6 = (if onUpdate options
                      then g5\<lparr>notified := notified g5 @ [deploymentName g5]\<rparr> else g5);
                g7 = log LogReady g6
            in (Done \<lparr>result_api = apiProxy, result_internal = internalProxy,
                       result_deploymentName = deploymentName g7\<rparr>, g7))))))"

subsection \<open>The ways \<open>update\<close> ends\<close>

text \<open>
  Names for the parts of the state: the descriptors kept by the visibility filter, the
  tree instance of a visibility when its loop completes, the deployment name, the number
  of skipped descriptors, what has been printed when the trees are about to be built,
  and the state at that moment.
\<close>

definition valid_functions :: "ConvexFunctionSpec \<Rightarrow> FunctionSpec list" where
  "valid_functions parsed = filter usable (functions' parsed)"

definition instance_for :: "UpdateOptions \<Rightarrow> ConvexFunctionSpec \<Rightarrow> string \<Rightarrow> tree_instance" where
  "instance_for options parsed v =
     fresh_instance (deploymentFlag options) (filteredFunctions (valid_functions parsed) v)"

definition label_after :: "ConvexFunctionSpec \<Rightarrow> globals \<Rightarrow> string" where
  "label_after parsed g =
     (case urlMatch (url parsed) of Some label \<Rightarrow> label | None \<Rightarrow> deploymentName g)"

definition skipped :: "ConvexFunctionSpec \<Rightarrow> nat" where
  "skipped parsed = length (filter (\<lambda>f. \<not> usable f) (functions' parsed))"

definition report_events :: "UpdateOptions \<Rightarrow> ConvexFunctionSpec \<Rightarrow> console_event list" where
  "report_events options parsed =
     [LogFetching (if isProd options then ''production'' else ''dev''),
      LogLoaded (length (functions' parsed)) (url parsed)]
     @ (if skipped parsed > 0 then [LogSkipped (skipped parsed)] else [])
     @ [LogPublic (length (filter (has_kind ''public'') (valid_functions parsed))),
        LogInternal (length (filter (has_kind ''internal'') (valid_functions parsed)))]"

definition reported :: "UpdateOptions \<Rightarrow> ConvexFunctionSpec \<Rightarrow> globals \<Rightarrow> globals" where
  "reported options parsed g =
     g\<lparr>deploymentName := label_after parsed g,
       console := console g @ report_events options parsed\<rparr>"

definition completed ::
  "UpdateOptions \<Rightarrow> ConvexFunctionSpec \<Rightarrow> tree_instance \<Rightarrow> tree_instance
     \<Rightarrow> (string \<times> FunctionSpec) list \<Rightarrow> globals \<Rightarrow> update_result outcome \<times> globals" where
  "completed options parsed apiProxy internalProxy recorded g =
     (Done \<lparr>result_api = apiProxy, result_internal = internalProxy,
            result_deploymentName = label_after parsed g\<rparr>,
      g\<lparr>api := Some apiProxy, internal := Some internalProxy,
        deploymentName := label_after parsed g,
        functionsByPath := recorded,
        console := console g @ report_events options parsed @ [LogReady],
        notified := notified g @ (if onUpdate options then [label_after parsed g] else [])\<rparr>)"



lemma skipped_eq: "length (functions' parsed) - length (valid_functions parsed) = skipped parsed"
  using sum_length_filter_compl[of usable "functions' parsed"]
  by (simp add: valid_functions_def skipped_def)

lemma update_fetched:
  assumes "execSync (fetch_command options) = Inr output" and "JSON_parse output = Inr parsed"
  shows "update options execSync JSON_parse g =
    (case createProxyTree (valid_functions parsed) ''public'' (deploymentFlag options)
            (functionsByPath g) of
       (Threw e, recorded) \<Rightarrow>
         fetch_failed e ((reported options parsed g)\<lparr>functionsByPath := recorded\<rparr>)
     | (Beyond, recorded) \<Rightarrow> (Beyond, (reported options parsed g)\<lparr>functionsByPath := recorded\<rparr>)
     | (Done apiProxy, recorded) \<Rightarrow>
       (case createProxyTree (valid_functions parsed) ''internal'' (deploymentFlag options)
               recorded of
          (Threw e, recorded') \<Rightarrow>
            fetch_failed e ((reported options parsed g)\<lparr>functionsByPath := recorded'\<rparr>)
        | (Beyond, recorded') \<Rightarrow>
            (Beyond, (reported options parsed g)\<lparr>functionsByPath := recorded'\<rparr>)
        | (Done internalProxy, recorded') \<Rightarrow>
            completed options parsed apiProxy internalProxy recorded' g))"
proof -
  have sk: "length (functions' parsed) - length (filter usable (functions' parsed)) = skipped parsed"
    using skipped_eq[of parsed] by (simp add: valid_functions_def)
  obtain r1 m1 where c1: "createProxyTree (filter usable (functions' parsed)) ''public''
      (deploymentFlag options) (functionsByPath g) = (r1, m1)"
    by (cases "createProxyTree (filter usable (functions' parsed)) ''public''
      (deploymentFlag options) (functionsByPath g)")
  obtain r2 m2 where c2: "createProxyTree (filter usable (functions' parsed)) ''internal''
      (deploymentFlag options) m1 = (r2, m2)"
    by (cases "createProxyTree (filter usable (functions' parsed)) ''internal''
      (deploymentFlag options) m1")
  show ?thesis
    unfolding update_def Let_def assms sum.case sk
    by (cases "urlMatch (url parsed)"; cases r1; cases r2)
      (simp_all add: c1 c2 log_def label_after_def report_events_def reported_def completed_def
         valid_functions_def fetch_failed_def)
qed

lemma update_Done:
  assumes "execSync (fetch_command options) = Inr output" and "JSON_parse output = Inr parsed"
    and "update options execSync JSON_parse g = (Done r, g')"
  shows "(r, g') =
     (\<lparr>result_api = instance_for options parsed ''public'',
       result_internal = instance_for options parsed ''internal'',
       result_deploymentName = label_after parsed g\<rparr>,
      g\<lparr>api := Some (instance_for options parsed ''public''),
        internal := Some (instance_for options parsed ''internal''),
        deploymentName := label_after parsed g,
        functionsByPath :=
          record_paths (filteredFunctions (valid_functions parsed) ''internal'')
            (record_paths (filteredFunctions (valid_functions parsed) ''public'')
               (functionsByPath g)),
        console := console g @ report_events options parsed @ [LogReady],
        notified := notified g @ (if onUpdate options then [label_after parsed g] else [])\<rparr>)"
proof -
  obtain r1 m1 where c1: "createProxyTree (valid_functions parsed) ''public''
      (deploymentFlag options) (functionsByPath g) = (r1, m1)"
    by (cases "createProxyTree (valid_functions parsed) ''public''
      (deploymentFlag options) (functionsByPath g)")
  obtain r2 m2 where c2: "createProxyTree (valid_functions parsed) ''internal''
      (deploymentFlag options) m1 = (r2, m2)"
    by (cases "createProxyTree (valid_functions parsed) ''internal''
      (deploymentFlag options) m1")
  note uf = update_fetched[of execSync options "output" JSON_parse parsed g, OF assms(1) assms(2)]
  from assms(3) obtain A where A: "r1 = Done A"
    unfolding uf c1
    by (cases r1) (auto simp: fetch_failed_def)
  from assms(3) obtain I where I: "r2 = Done I"
    unfolding uf c1 A
    by (cases r2) (auto simp: c2 fetch_failed_def)
  from createProxyTree_Done[OF c1[unfolded A]]
  have a: "A = instance_for options parsed ''public''"
    "m1 = record_paths (filteredFunctions (valid_functions parsed) ''public'') (functionsByPath g)"
    by (simp_all add: instance_for_def)
  from createProxyTree_Done[OF c2[unfolded I]]
  have i: "I = instance_for options parsed ''internal''"
    "m2 = record_paths (filteredFunctions (valid_functions parsed) ''internal'') m1"
    by (simp_all add: instance_for_def)
  have "update options execSync JSON_parse g = completed options parsed A I m2 g"
    unfolding uf c1 A by (simp add: c2 I)
  then have "(Done r, g') = completed options parsed A I m2 g"
    using assms(3) by simp
  then show ?thesis
    unfolding completed_def a(1) i(1) i(2) a(2) by simp
qed


lemma update_failure:
  assumes "execSync (fetch_command options) = Inl e
     \<or> (\<exists>output. execSync (fetch_command options) = Inr output \<and> JSON_parse output = Inl e)"
  shows "update options execSync JSON_parse g =
    (Threw e, g\<lparr>console := console g
        @ [LogFetching (if isProd options then ''production'' else ''dev''), ErrFetching (message e)]
        @ stderr_events e\<rparr>)"
  using assms by (auto simp: update_def Let_def fetch_failed_def log_def)

subsection \<open>A failed fetch\<close>

text \<open>
  Claim C4. When the subprocess fails with the error \<open>e\<close>, or its output does not parse
  and \<open>JSON_parse\<close> throws \<open>e\<close>, \<open>update\<close> throws \<open>e\<close> (the error that carries the captured
  message), reports the message and the captured error stream on the console, and
  leaves \<open>api\<close> and \<open>internal\<close>, and every other global but the console, as they were.
\<close>

theorem update_failure_keeps_trees:
  assumes "execSync (fetch_command options) = Inl e
     \<or> (\<exists>output. execSync (fetch_command options) = Inr output \<and> JSON_parse output = Inl e)"
  shows "fst (update options execSync JSON_parse g) = Threw e
    \<and> api (snd (update options execSync JSON_parse g)) = api g
    \<and> internal (snd (update options execSync JSON_parse g)) = internal g
    \<and> console (snd (update options execSync JSON_parse g)) =
        console g @ [LogFetching (if isProd options then ''production'' else ''dev''),
                     ErrFetching (message e)] @ stderr_events e
    \<and> snd (update options execSync JSON_parse g)
        = g\<lparr>console := console (snd (update options execSync JSON_parse g))\<rparr>"
  using update_failure[of execSync options e JSON_parse g] assms by simp

text \<open>Sample data: options, a fetched specification, the state after loading it, two errors.\<close>

definition sample_options :: UpdateOptions where
  "sample_options = \<lparr>deploymentFlag = [], isProd = False, onUpdate = True\<rparr>"

definition sample_spec :: ConvexFunctionSpec where
  "sample_spec =
     \<lparr>url = ''https://frugal-fox-192.convex.cloud'',
      functions' = [descriptor ''users.js:list'' Query ''public'',
                    descriptor ''jobs.js:run'' Action ''internal'']\<rparr>"

definition loaded_globals :: globals where
  "loaded_globals =
     snd (update sample_options (\<lambda>cmd. Inr ''spec'') (\<lambda>text. Inr sample_spec) initial_globals)"

definition exit_1 :: js_error where
  "exit_1 = \<lparr>message = ''Command failed: npx convex function-spec'', stderr = Some ''not logged in''\<rparr>"

definition syntax_error :: js_error where
  "syntax_error = \<lparr>message = ''Unexpected token'', stderr = None\<rparr>"

lemma sample_update:
  "fst (update sample_options (\<lambda>cmd. Inr ''spec'') (\<lambda>text. Inr sample_spec) initial_globals)
     = Done \<lparr>result_api = instance_for sample_options sample_spec ''public'',
             result_internal = instance_for sample_options sample_spec ''internal'',
             result_deploymentName = ''frugal-fox-192''\<rparr>"
  by code_simp

lemma loaded_api: "api loaded_globals = Some (instance_for sample_options sample_spec ''public'')"
proof -
  obtain g' where u: "update sample_options (\<lambda>cmd. Inr ''spec'') (\<lambda>text. Inr sample_spec) initial_globals
      = (Done \<lparr>result_api = instance_for sample_options sample_spec ''public'',
             result_internal = instance_for sample_options sample_spec ''internal'',
             result_deploymentName = ''frugal-fox-192''\<rparr>, g')"
    using sample_update
    by (cases "update sample_options (\<lambda>cmd. Inr ''spec'') (\<lambda>text. Inr sample_spec) initial_globals")
       simp
  have "(\<lambda>cmd. Inr ''spec'') (fetch_command sample_options) = (Inr ''spec'' :: js_error + string)"
    by simp
  moreover have "(\<lambda>text. Inr sample_spec) ''spec'' = (Inr sample_spec :: js_error + ConvexFunctionSpec)"
    by simp
  ultimately show ?thesis
    unfolding loaded_globals_def using update_Done[OF _ _ u, of "''spec''" sample_spec] u
    by simp
qed

theorem update_failure_keeps_trees_witness:
  "fst (update sample_options (\<lambda>cmd. Inl exit_1) (\<lambda>text. Inr sample_spec) loaded_globals) = Threw exit_1
   \<and> api (snd (update sample_options (\<lambda>cmd. Inl exit_1) (\<lambda>text. Inr sample_spec) loaded_globals))
       = Some (instance_for sample_options sample_spec ''public'')
   \<and> fst (update sample_options (\<lambda>cmd. Inr ''<html>'') (\<lambda>text. Inl syntax_error) loaded_globals)
       = Threw syntax_error
   \<and> api (snd (update sample_options (\<lambda>cmd. Inr ''<html>'') (\<lambda>text. Inl syntax_error) loaded_globals))
       = Some (instance_for sample_options sample_spec ''public'')"
  using update_failure_keeps_trees[of "\<lambda>cmd. Inl exit_1" sample_options exit_1
          "\<lambda>text. Inr sample_spec" loaded_globals]
        update_failure_keeps_trees[of "\<lambda>cmd. Inr ''<html>''" sample_options syntax_error
          "\<lambda>text. Inl syntax_error" loaded_globals]
  by (simp add: loaded_api)

subsection \<open>The deployment label\<close>

lemma match_here_scheme:
  assumes "scheme = ''http'' \<or> scheme = ''https''" and "label \<noteq> []" and "CHR ''.'' \<notin> set label"
  shows "match_here (scheme @ ''://'' @ label @ ''.'' @ rest) = Some label"
proof -
  have t: "takeWhile (\<lambda>c. c \<noteq> CHR ''.'') (label @ CHR ''.'' # rest) = label"
    using assms(3) by (rule takeWhile_upto)
  from assms(1) show ?thesis
  proof
    assume "scheme = ''http''"
    then show ?thesis using t assms(2) by (simp add: match_here_def)
  next
    assume "scheme = ''https''"
    then show ?thesis using t assms(2) by (simp add: match_here_def)
  qed
qed

lemma urlMatch_scheme:
  assumes "scheme = ''http'' \<or> scheme = ''https''" and "label \<noteq> []" and "CHR ''.'' \<notin> set label"
  shows "urlMatch (scheme @ ''://'' @ label @ ''.'' @ rest) = Some label"
proof -
  obtain c cs where "scheme @ ''://'' @ label @ ''.'' @ rest = c # cs"
    using assms(1) by auto
  then show ?thesis
    using match_here_scheme[OF assms, of rest] by simp
qed

text \<open>
  The deployment name is set before the trees are built, and nothing after that
  changes it, however \<open>update\<close> ends.
\<close>

lemma deploymentName_fetch_failed: "deploymentName (snd (fetch_failed e g)) = deploymentName g"
  by (simp add: fetch_failed_def)

lemma deploymentName_after_fetch:
  assumes "execSync (fetch_command options) = Inr output" and "JSON_parse output = Inr parsed"
  shows "deploymentName (snd (update options execSync JSON_parse g)) = label_after parsed g"
proof -
  note uf = update_fetched[of execSync options "output" JSON_parse parsed g, OF assms(1) assms(2)]
  obtain r1 m1 where c1: "createProxyTree (valid_functions parsed) ''public''
      (deploymentFlag options) (functionsByPath g) = (r1, m1)"
    by (cases "createProxyTree (valid_functions parsed) ''public''
      (deploymentFlag options) (functionsByPath g)")
  obtain r2 m2 where c2: "createProxyTree (valid_functions parsed) ''internal''
      (deploymentFlag options) m1 = (r2, m2)"
    by (cases "createProxyTree (valid_functions parsed) ''internal''
      (deploymentFlag options) m1")
  show ?thesis
    unfolding uf c1
    by (cases r1; cases r2)
      (simp_all add: c2 deploymentName_fetch_failed reported_def completed_def)
qed

text \<open>
  Claim C9, as amended. After a successful fetch the deployment name is the group
  captured from the URL, and the previous name when the expression does not match. For
  \<open>http://label.rest\<close> and \<open>https://label.rest\<close> with a non-empty \<open>label\<close> without a dot the
  captured group is \<open>label\<close>. The name is the placeholder \<open>unknown\<close> only as long as no
  URL has matched.
\<close>

theorem deployment_label:
  assumes "execSync (fetch_command options) = Inr output" and "JSON_parse output = Inr parsed"
  shows "deploymentName (snd (update options execSync JSON_parse g)) =
      (case urlMatch (url parsed) of Some label \<Rightarrow> label | None \<Rightarrow> deploymentName g)
    \<and> (\<forall>scheme label rest.
          (scheme = ''http'' \<or> scheme = ''https'') \<and> label \<noteq> [] \<and> CHR ''.'' \<notin> set label
          \<longrightarrow> urlMatch (scheme @ ''://'' @ label @ ''.'' @ rest) = Some label)
    \<and> deploymentName initial_globals = ''unknown''"
proof -
  have a: "deploymentName (snd (update options execSync JSON_parse g)) =
      (case urlMatch (url parsed) of Some label \<Rightarrow> label | None \<Rightarrow> deploymentName g)"
    using deploymentName_after_fetch[of execSync options "output" JSON_parse parsed g] assms
    by (simp add: label_after_def)
  have b: "\<forall>scheme label rest.
          (scheme = ''http'' \<or> scheme = ''https'') \<and> label \<noteq> [] \<and> CHR ''.'' \<notin> set label
          \<longrightarrow> urlMatch (scheme @ ''://'' @ label @ ''.'' @ rest) = Some label"
    using urlMatch_scheme by blast
  have c: "deploymentName initial_globals = ''unknown''"
    by (simp add: initial_globals_def)
  show ?thesis by (rule conjI[OF a conjI[OF b c]])
qed

theorem deployment_label_witness:
  "urlMatch ''https://frugal-fox-192.convex.cloud'' = Some ''frugal-fox-192''
   \<and> deploymentName (snd (update sample_options (\<lambda>cmd. Inr ''spec'') (\<lambda>text. Inr sample_spec)
        initial_globals)) = ''frugal-fox-192''
   \<and> urlMatch ''localhost'' = None
   \<and> deploymentName (snd (update sample_options (\<lambda>cmd. Inr ''spec'')
        (\<lambda>text. Inr \<lparr>url = ''localhost'', functions' = []\<rparr>) initial_globals)) = ''unknown''"
proof -
  have 1: "urlMatch ''https://frugal-fox-192.convex.cloud'' = Some ''frugal-fox-192''"
    by code_simp
  have 2: "urlMatch ''localhost'' = None" by code_simp
  show ?thesis
    using deployment_label[of "\<lambda>cmd. Inr ''spec''" sample_options "''spec''"
            "\<lambda>text. Inr sample_spec" sample_spec initial_globals]
          deployment_label[of "\<lambda>cmd. Inr ''spec''" sample_options "''spec''"
            "\<lambda>text. Inr \<lparr>url = ''localhost'', functions' = []\<rparr>"
            "\<lparr>url = ''localhost'', functions' = []\<rparr>" initial_globals]
          1 2
    by (simp add: sample_spec_def initial_globals_def del: urlMatch.simps)
qed

text \<open>
  The claim as stated fails for a refresh: after an update that found the label
  \<open>frugal-fox-192\<close>, an update whose URL does not match keeps that label and does not fall
  back to the placeholder.
\<close>

theorem stale_label_counterexample:
  "urlMatch ''localhost'' = None
   \<and> deploymentName (snd (update sample_options (\<lambda>cmd. Inr ''spec'')
        (\<lambda>text. Inr \<lparr>url = ''localhost'', functions' = []\<rparr>) loaded_globals)) = ''frugal-fox-192''
   \<and> deploymentName (snd (update sample_options (\<lambda>cmd. Inr ''spec'')
        (\<lambda>text. Inr \<lparr>url = ''localhost'', functions' = []\<rparr>) loaded_globals)) \<noteq> ''unknown''"
proof -
  have 1: "urlMatch ''https://frugal-fox-192.convex.cloud'' = Some ''frugal-fox-192''"
    by code_simp
  have 2: "urlMatch ''localhost'' = None" by code_simp
  have 3: "deploymentName loaded_globals = ''frugal-fox-192''"
    unfolding loaded_globals_def
    using deploymentName_after_fetch[of "\<lambda>cmd. Inr ''spec''" sample_options "''spec''"
        "\<lambda>text. Inr sample_spec" sample_spec initial_globals]
    by (simp add: label_after_def sample_spec_def 1 del: urlMatch.simps)
  have "deploymentName (snd (update sample_options (\<lambda>cmd. Inr ''spec'')
        (\<lambda>text. Inr \<lparr>url = ''localhost'', functions' = []\<rparr>) loaded_globals)) = ''frugal-fox-192''"
    using deploymentName_after_fetch[of "\<lambda>cmd. Inr ''spec''" sample_options "''spec''"
        "\<lambda>text. Inr \<lparr>url = ''localhost'', functions' = []\<rparr>"
        "\<lparr>url = ''localhost'', functions' = []\<rparr>" loaded_globals]
    by (simp add: label_after_def 2 3 del: urlMatch.simps)
  then show ?thesis using 2 by simp
qed

subsection \<open>The two trees\<close>

lemma spec_createFunctionProxy: "spec (createFunctionProxy f dflag) = f"
  by (simp add: createFunctionProxy_def)

lemma callable_in_fresh_instance:
  assumes "callable_at (fresh_instance dflag fs) p = Done (Some fp)"
  shows "spec fp \<in> set fs \<and> fp = createFunctionProxy (spec fp) dflag \<and> api_parts (spec fp) = p"
proof -
  have "peek (plain_build dflag fs) p = Callable fp"
    using assms by (rule callable_at_sound) (simp add: fresh_instance_def)
  then obtain f where "f \<in> set fs" "fp = createFunctionProxy f dflag" "api_parts f = p"
    using peek_plain_build_sound by blast
  then show ?thesis by (simp add: spec_createFunctionProxy)
qed

lemma callable_in_update_tree:
  assumes "callable_at (instance_for options parsed v) p = Done (Some fp)"
  shows "spec fp \<in> set (functions' parsed) \<and> usable (spec fp) \<and> has_kind v (spec fp)
     \<and> fp = createFunctionProxy (spec fp) (deploymentFlag options) \<and> api_parts (spec fp) = p"
  using callable_in_fresh_instance[OF assms[unfolded instance_for_def]]
  by (auto simp: filteredFunctions_def valid_functions_def)


lemma console_fetch_failed:
  "console (snd (fetch_failed e g)) = console g @ [ErrFetching (message e)] @ stderr_events e"
  by (simp add: fetch_failed_def)

lemma console_after_fetch:
  assumes "execSync (fetch_command options) = Inr output" and "JSON_parse output = Inr parsed"
  shows "prefix (console g @ report_events options parsed)
           (console (snd (update options execSync JSON_parse g)))"
proof -
  note uf = update_fetched[of execSync options "output" JSON_parse parsed g, OF assms(1) assms(2)]
  obtain r1 m1 where c1: "createProxyTree (valid_functions parsed) ''public''
      (deploymentFlag options) (functionsByPath g) = (r1, m1)"
    by (cases "createProxyTree (valid_functions parsed) ''public''
      (deploymentFlag options) (functionsByPath g)")
  obtain r2 m2 where c2: "createProxyTree (valid_functions parsed) ''internal''
      (deploymentFlag options) m1 = (r2, m2)"
    by (cases "createProxyTree (valid_functions parsed) ''internal''
      (deploymentFlag options) m1")
  show ?thesis
    unfolding uf c1
    by (cases r1; cases r2)
      (simp_all add: c2 console_fetch_failed reported_def completed_def)
qed

text \<open>
  Claim C10. A descriptor \<open>f\<close> whose visibility has a non-empty kind other than
  \<open>public\<close> and \<open>internal\<close> passes the visibility filter, so it is not among the skipped
  descriptors, whose number \<open>update\<close> has printed, together with the two counts, before
  it builds the trees. \<open>f\<close> is in neither of the two lists the loops run over, and
  whenever \<open>update\<close> completes, no callable of the \<open>api\<close> tree or of the \<open>internal\<close> tree
  is bound to it.
\<close>

theorem other_kinds_vanish_uncounted:
  assumes "execSync (fetch_command options) = Inr output" and "JSON_parse output = Inr parsed"
    and "f \<in> set (functions' parsed)"
    and "visibility f = Some vis" and "kind vis = Some k"
    and "k \<noteq> []" and "k \<noteq> ''public''" and "k \<noteq> ''internal''"
  shows "usable f
     \<and> f \<in> set (valid_functions parsed)
     \<and> f \<notin> set (filteredFunctions (valid_functions parsed) ''public'')
     \<and> f \<notin> set (filteredFunctions (valid_functions parsed) ''internal'')
     \<and> skipped parsed = length (filter (\<lambda>h. \<not> usable h) (functions' parsed))
     \<and> prefix
         (console g
          @ [LogFetching (if isProd options then ''production'' else ''dev''),
             LogLoaded (length (functions' parsed)) (url parsed)]
          @ (if skipped parsed > 0 then [LogSkipped (skipped parsed)] else [])
          @ [LogPublic (length (filter (has_kind ''public'') (valid_functions parsed))),
             LogInternal (length (filter (has_kind ''internal'') (valid_functions parsed)))])
         (console (snd (update options execSync JSON_parse g)))
     \<and> (\<forall>r g'. update options execSync JSON_parse g = (Done r, g') \<longrightarrow>
           api g' = Some (result_api r) \<and> internal g' = Some (result_internal r)
         \<and> (\<forall>p fp. callable_at (result_api r) p = Done (Some fp) \<longrightarrow> spec fp \<noteq> f)
         \<and> (\<forall>p fp. callable_at (result_internal r) p = Done (Some fp) \<longrightarrow> spec fp \<noteq> f)
         \<and> console g' = console g
              @ [LogFetching (if isProd options then ''production'' else ''dev''),
                 LogLoaded (length (functions' parsed)) (url parsed)]
              @ (if skipped parsed > 0 then [LogSkipped (skipped parsed)] else [])
              @ [LogPublic (length (filter (has_kind ''public'') (valid_functions parsed))),
                 LogInternal (length (filter (has_kind ''internal'') (valid_functions parsed))),
                 LogReady])"
proof -
  have nk: "\<not> has_kind ''public'' f" "\<not> has_kind ''internal'' f"
    using assms(4,5,7,8) by (auto simp: has_kind_def)
  have us: "usable f" using assms(4,5,6) by (simp add: usable_def)
  have v: "f \<in> set (valid_functions parsed)" using us assms(3) by (simp add: valid_functions_def)
  have nf: "f \<notin> set (filteredFunctions (valid_functions parsed) ''public'')"
    "f \<notin> set (filteredFunctions (valid_functions parsed) ''internal'')"
    using nk by (simp_all add: filteredFunctions_def)
  have sk: "skipped parsed = length (filter (\<lambda>h. \<not> usable h) (functions' parsed))"
    by (simp add: skipped_def)
  have pre: "prefix
         (console g
          @ [LogFetching (if isProd options then ''production'' else ''dev''),
             LogLoaded (length (functions' parsed)) (url parsed)]
          @ (if skipped parsed > 0 then [LogSkipped (skipped parsed)] else [])
          @ [LogPublic (length (filter (has_kind ''public'') (valid_functions parsed))),
             LogInternal (length (filter (has_kind ''internal'') (valid_functions parsed)))])
         (console (snd (update options execSync JSON_parse g)))"
    using console_after_fetch[of execSync options "output" JSON_parse parsed g] assms(1,2)
    by (simp add: report_events_def)
  have 1: "spec fp \<noteq> f" if "callable_at (instance_for options parsed ''public'') p = Done (Some fp)" for p fp
    using callable_in_update_tree[OF that] nk by auto
  have 2: "spec fp \<noteq> f" if "callable_at (instance_for options parsed ''internal'') p = Done (Some fp)" for p fp
    using callable_in_update_tree[OF that] nk by auto
  have fin: "api g' = Some (result_api r) \<and> internal g' = Some (result_internal r)
         \<and> (\<forall>p fp. callable_at (result_api r) p = Done (Some fp) \<longrightarrow> spec fp \<noteq> f)
         \<and> (\<forall>p fp. callable_at (result_internal r) p = Done (Some fp) \<longrightarrow> spec fp \<noteq> f)
         \<and> console g' = console g
              @ [LogFetching (if isProd options then ''production'' else ''dev''),
                 LogLoaded (length (functions' parsed)) (url parsed)]
              @ (if skipped parsed > 0 then [LogSkipped (skipped parsed)] else [])
              @ [LogPublic (length (filter (has_kind ''public'') (valid_functions parsed))),
                 LogInternal (length (filter (has_kind ''internal'') (valid_functions parsed))),
                 LogReady]"
    if u: "update options execSync JSON_parse g = (Done r, g')" for r g'
    using update_Done[of execSync options "output" JSON_parse parsed g r g'] assms(1,2) u 1 2
    by (simp add: report_events_def)
  show ?thesis using us v nf sk pre fin by blast
qed

theorem other_kinds_vanish_uncounted_witness:
  "usable (descriptor ''admin.js:purge'' Mutation ''system'')
   \<and> (case update sample_options (\<lambda>cmd. Inr ''spec'')
           (\<lambda>text. Inr \<lparr>url = ''https://frugal-fox-192.convex.cloud'',
                           functions' = [descriptor ''users.js:list'' Query ''public'',
                                         descriptor ''admin.js:purge'' Mutation ''system'']\<rparr>)
           initial_globals of
      (Done r, g') \<Rightarrow>
         callable_at (result_api r) [''admin''] = Done None
       \<and> callable_at (result_internal r) [''admin''] = Done None
       \<and> callable_at (result_api r) [''admin'', ''purge''] = Threw type_error
       \<and> callable_at (result_api r) [''users'', ''list'']
           = Done (Some (createFunctionProxy (descriptor ''users.js:list'' Query ''public'') []))
       \<and> console g' = [LogFetching ''dev'',
            LogLoaded 2 ''https://frugal-fox-192.convex.cloud'',
            LogPublic 1, LogInternal 0, LogReady]
    | _ \<Rightarrow> False)"
proof -
  let ?parsed = "\<lparr>url = ''https://frugal-fox-192.convex.cloud'',
                           functions' = [descriptor ''users.js:list'' Query ''public'',
                                         descriptor ''admin.js:purge'' Mutation ''system'']\<rparr>"
  have e: "(case update sample_options (\<lambda>cmd. Inr ''spec'') (\<lambda>text. Inr ?parsed) initial_globals of
      (Done r, g') \<Rightarrow>
         callable_at (result_api r) [''admin''] = Done None
       \<and> callable_at (result_internal r) [''admin''] = Done None
       \<and> callable_at (result_api r) [''admin'', ''purge''] = Threw type_error
       \<and> callable_at (result_api r) [''users'', ''list'']
           = Done (Some (createFunctionProxy (descriptor ''users.js:list'' Query ''public'') []))
       \<and> console g' = [LogFetching ''dev'',
            LogLoaded 2 ''https://frugal-fox-192.convex.cloud'',
            LogPublic 1, LogInternal 0, LogReady]
    | _ \<Rightarrow> False)"
    by code_simp
  have v: "visibility (descriptor ''admin.js:purge'' Mutation ''system'') = Some \<lparr>kind = Some ''system''\<rparr>"
    by (simp add: descriptor_def)
  have "usable (descriptor ''admin.js:purge'' Mutation ''system'')"
    using other_kinds_vanish_uncounted[of "\<lambda>cmd. Inr ''spec''" sample_options "''spec''"
        "\<lambda>text. Inr ?parsed" ?parsed "descriptor ''admin.js:purge'' Mutation ''system''"
        "\<lparr>kind = Some ''system''\<rparr>" "''system''" initial_globals] v
    by simp
  then show ?thesis using e by simp
qed

text \<open>
  With a third descriptor whose walk runs into the read-only \<^verbatim>\<open>name\<close> of a function,
  \<open>update\<close> throws from the loop of the \<open>api\<close> tree: the counts have been printed by then
  (the descriptor of kind \<open>system\<close> is not among the skipped ones), and \<open>api\<close> and
  \<open>internal\<close> stay as they were.
\<close>

lemma update_type_error:
  "update sample_options (\<lambda>cmd. Inr ''spec'')
     (\<lambda>text. Inr \<lparr>url = ''https://frugal-fox-192.convex.cloud'',
                     functions' = [descriptor ''a.js:b'' Query ''public'',
                                   descriptor ''a/b.js:name'' Query ''public'',
                                   descriptor ''admin.js:purge'' Mutation ''system'']\<rparr>)
     initial_globals
   = (Threw type_error,
      \<lparr>api = None, internal = None, deploymentName = ''frugal-fox-192'',
       functionsByPath = [(''a.b'', descriptor ''a.js:b'' Query ''public'')],
       console = [LogFetching ''dev'', LogLoaded 3 ''https://frugal-fox-192.convex.cloud'',
                  LogPublic 2, LogInternal 0, ErrFetching ''TypeError''],
       notified = []\<rparr>)"
  by code_simp






text \<open>
  A public descriptor \<open>toString.js:f\<close>: the walk reads \<^verbatim>\<open>tree['toString']\<close>, finds the
  method every object inherits, and would set \<open>f\<close> on that function, which the
  \<open>internal\<close> tree inherits as well. \<open>update\<close> leaves the model there, and the theorem
  above says nothing of this run.
\<close>

lemma builtin_path_leaves_model:
  "fst (update sample_options (\<lambda>cmd. Inr ''spec'')
     (\<lambda>text. Inr \<lparr>url = ''https://frugal-fox-192.convex.cloud'',
                     functions' = [descriptor ''toString.js:f'' Query ''public'']\<rparr>)
     initial_globals) = Beyond"
  by code_simp

section \<open>Calling a leaf\<close>

text \<open>
  The function \<^verbatim>\<open>fn\<close> that \<^verbatim>\<open>createFunctionProxy\<close> returns. \<open>argsJson\<close> is the outcome of
  \<^verbatim>\<open>JSON.stringify(args)\<close>. The result is the parsed standard output, or its trimmed
  text when it does not parse; every error is reported and thrown again.
\<close>

datatype 'v returned = Parsed 'v | Text string

definition run_command :: "FunctionProxy \<Rightarrow> string \<Rightarrow> string" where
  "run_command fp a =
     trim (''npx convex run '' @ flag fp @ '' '' @ [CHR 0x22] @ runPath fp @ [CHR 0x22]
           @ '' '' @ [CHR 0x27] @ a @ [CHR 0x27])"

definition call_function ::
  "FunctionProxy \<Rightarrow> (js_error + string) \<Rightarrow> (string \<Rightarrow> js_error + string)
     \<Rightarrow> (string \<Rightarrow> js_error + 'v) \<Rightarrow> console_event list
     \<Rightarrow> (js_error + 'v returned) \<times> console_event list" where
  "call_function fp argsJson execSync JSON_parse con =
     (case argsJson of
        Inl e \<Rightarrow> (Inl e, con @ [ErrRunning (message e)] @ stderr_events e)
      | Inr a \<Rightarrow>
          let cmd = run_command fp a;
              console1 = con @ [LogRunning cmd]
          in case execSync cmd of
               Inl e \<Rightarrow> (Inl e, console1 @ [ErrRunning (message e)] @ stderr_events e)
             | Inr output \<Rightarrow>
                 (case JSON_parse output of
                    Inr v \<Rightarrow> (Inr (Parsed v), console1)
                  | Inl e \<Rightarrow> (Inr (Text (trim output)), console1)))"

subsection \<open>The result of a call\<close>

text \<open>
  Claim C7. When the run command succeeds with the standard output \<open>output\<close>, the call
  returns the parsed value if \<open>output\<close> parses as JSON and the trimmed text of \<open>output\<close>
  otherwise; both are normal returns.
\<close>

theorem call_returns_parsed_or_text:
  assumes "execSync (run_command fp a) = Inr output"
  shows "fst (call_function fp (Inr a) execSync JSON_parse con) =
     (case JSON_parse output of
        Inr v \<Rightarrow> Inr (Parsed v)
      | Inl e \<Rightarrow> Inr (Text (trim output)))"
  using assms by (simp add: call_function_def Let_def split: sum.splits)

text \<open>
  Sample data: JSON values, the text \<^verbatim>\<open>{"ok":true}\<close>, and a stand-in for \<^verbatim>\<open>JSON.parse\<close>
  that knows this one text.
\<close>

datatype json = JNull | JBool bool | JNumber int | JString string
  | JArray "json list" | JObject "(string \<times> json) list"

definition ok_true :: string where
  "ok_true = ''{'' @ [CHR 0x22] @ ''ok'' @ [CHR 0x22] @ '':true}''"

definition sample_parse :: "string \<Rightarrow> js_error + json" where
  "sample_parse text =
     (if trim text = ok_true then Inr (JObject [(''ok'', JBool True)]) else Inl syntax_error)"

theorem call_returns_parsed_or_text_witness:
  "fst (call_function (createFunctionProxy (descriptor ''users.js:list'' Query ''public'') [])
          (Inr ''{}'') (\<lambda>cmd. Inr (ok_true @ [CHR 0x0A])) sample_parse [])
     = Inr (Parsed (JObject [(''ok'', JBool True)]))
   \<and> fst (call_function (createFunctionProxy (descriptor ''users.js:list'' Query ''public'') [])
          (Inr ''{}'') (\<lambda>cmd. Inr (''done'' @ [CHR 0x0A])) sample_parse [])
     = Inr (Text ''done'')"
  using call_returns_parsed_or_text[of "\<lambda>cmd. Inr (ok_true @ [CHR 0x0A])"
          "createFunctionProxy (descriptor ''users.js:list'' Query ''public'') []" "''{}''"
          "ok_true @ [CHR 0x0A]" sample_parse "[]"]
        call_returns_parsed_or_text[of "\<lambda>cmd. Inr (''done'' @ [CHR 0x0A])"
          "createFunctionProxy (descriptor ''users.js:list'' Query ''public'') []" "''{}''"
          "''done'' @ [CHR 0x0A]" sample_parse "[]"]
  by (simp add: sample_parse_def ok_true_def trim_def is_space_def)

end
